theory Spec2Isabelle
  imports Main "HOL-Library.Multiset" "HOL-Library.AList" "HOL-Library.Char_ord"
    "HOL-Library.List_Lexorder" "HOL-Library.Sublist"
begin

section \<open>Errors\<close>

text \<open>The exceptions the program can raise, as values.\<close>

datatype error =
    ValueError
  | KeyError
  | FileNotFoundError
  | FileExistsError
  | IsADirectoryError
  | NotADirectoryError
  | ShutilError
  | SameFileError
  | BadZipFile
  | ConnectionError

section \<open>Text and numbers\<close>

text \<open>
  A Python \<open>str\<close> is modelled as a \<open>string\<close> whose characters are the code points
  below 256. On these, the regular-expression class \<open>\d\<close> is exactly the ten ASCII
  digits, and \<open>str.strip\<close> removes the characters for which \<open>str.isspace\<close> holds.
\<close>

definition is_digit :: "char \<Rightarrow> bool" where
  "is_digit c = (c \<in> set ''0123456789'')"

definition is_sign :: "char \<Rightarrow> bool" where
  "is_sign c = (c = CHR ''-'' \<or> c = CHR ''+'')"

definition digit_val :: "char \<Rightarrow> int" where
  "digit_val c = int (of_char c) - 48"

definition int_of_digits :: "string \<Rightarrow> int" where
  "int_of_digits ds = foldl (\<lambda>a c. 10 * a + digit_val c) 0 ds"

text \<open>
  \<open>int(match)\<close> on a token produced by the patterns below: an optional sign followed by
  decimal digits.
\<close>

fun int_of_token :: "string \<Rightarrow> int" where
  "int_of_token [] = 0"
| "int_of_token (c # cs) =
     (if c = CHR ''-'' then - int_of_digits cs
      else if c = CHR ''+'' then int_of_digits cs
      else int_of_digits (c # cs))"

text \<open>
  A number returned by \<open>extract_numbers\<close>: \<open>int(match)\<close> is an unbounded integer;
  \<open>float(match)\<close> is the double nearest to the decimal literal and is kept here as that
  literal.
\<close>

datatype number = PyInt int | PyFloat string

subsection \<open>The regular expressions of \<open>extract_numbers\<close>\<close>

text \<open>
  A matcher tries a pattern at the start of a string and returns the matched text and
  the remaining text. The matchers follow the backtracking search of \<open>re\<close>: a greedy
  repetition of digits takes the whole run of digits (giving digits back never helps,
  since the next pattern element is a dot or the end of the pattern), an optional
  element is tried present first and absent second, and the left alternative of \<open>|\<close> is
  tried before the right one.
\<close>

type_synonym matcher = "string \<Rightarrow> (string \<times> string) option"

text \<open>\<open>\d+\<close>\<close>

definition re_digits :: matcher where
  "re_digits s =
     (let ds = takeWhile is_digit s
      in if ds = [] then None else Some (ds, dropWhile is_digit s))"

text \<open>\<open>\d*\.\d+\<close>\<close>

definition re_decimal :: matcher where
  "re_decimal s =
     (let ds = takeWhile is_digit s
      in case dropWhile is_digit s of
           [] \<Rightarrow> None
         | c # r \<Rightarrow>
             if c = CHR ''.'' \<and> takeWhile is_digit r \<noteq> []
             then Some (ds @ c # takeWhile is_digit r, dropWhile is_digit r)
             else None)"

text \<open>\<open>[-+]?\<close> followed by the pattern \<open>p\<close>\<close>

definition re_opt_sign :: "matcher \<Rightarrow> matcher" where
  "re_opt_sign p s =
     (case s of
        [] \<Rightarrow> p s
      | c # r \<Rightarrow>
          if is_sign c
          then (case p r of Some (m, rest) \<Rightarrow> Some (c # m, rest) | None \<Rightarrow> p s)
          else p s)"

text \<open>\<open>p|q\<close>\<close>

definition re_alt :: "matcher \<Rightarrow> matcher \<Rightarrow> matcher" where
  "re_alt p q s = (case p s of Some r \<Rightarrow> Some r | None \<Rightarrow> q s)"

text \<open>
  The pattern string is assembled by concatenation: \<open>\d+\<close>, then with \<open>match_float\<close> the
  text \<open>\d*\.\d+|\<close> in front of it, then with \<open>match_sign\<close> the text \<open>[-+]?\<close> in front of
  that. In \<open>[-+]?\d*\.\d+|\d+\<close> the alternation binds weakest, so the optional sign
  belongs to the left alternative only.
\<close>

definition pattern :: "bool \<Rightarrow> bool \<Rightarrow> matcher" where
  "pattern match_float match_sign =
     (if match_float
      then (if match_sign
            then re_alt (re_opt_sign re_decimal) re_digits
            else re_alt re_decimal re_digits)
      else (if match_sign then re_opt_sign re_digits else re_digits))"

text \<open>
  \<open>re.findall\<close>: the leftmost match is taken, the search resumes where it ended; where
  nothing matches the search moves one character on.
\<close>

fun findall :: "matcher \<Rightarrow> string \<Rightarrow> string list" where
  "findall p [] = []"
| "findall p (c # cs) =
     (case p (c # cs) of
        None \<Rightarrow> findall p cs
      | Some (m, rest) \<Rightarrow>
          m # (if length rest \<le> length cs then findall p rest else findall p cs))"

definition to_number :: "string \<Rightarrow> number" where
  "to_number m = (if CHR ''.'' \<in> set m then PyFloat m else PyInt (int_of_token m))"

definition extract_numbers :: "string \<Rightarrow> bool \<Rightarrow> bool \<Rightarrow> number list" where
  "extract_numbers s match_float match_sign =
     map to_number (findall (pattern match_float match_sign) s)"

text \<open>
  With both flags off every token is a run of digits, so the result holds integers
  only; this is the version vector of a name.
\<close>

definition extract_version :: "string \<Rightarrow> int list" where
  "extract_version s = map int_of_digits (findall re_digits s)"

subsection \<open>Version comparison\<close>

fun compare_version :: "int list \<Rightarrow> int list \<Rightarrow> int" where
  "compare_version (x # xs) (y # ys) =
     (if x < y then - 1 else if x > y then 1 else compare_version xs ys)"
| "compare_version _ _ = 0"

section \<open>Configuration documents\<close>

definition LF :: char where
  "LF = CHR 0x0A"

definition CR :: char where
  "CR = CHR 0x0D"

text \<open>The characters removed by \<open>str.strip\<close>, among the code points below 256.\<close>

definition is_space :: "char \<Rightarrow> bool" where
  "is_space c =
     (let n = (of_char c :: nat)
      in (9 \<le> n \<and> n \<le> 13) \<or> (28 \<le> n \<and> n \<le> 32) \<or> n = 133 \<or> n = 160)"

definition strip :: "string \<Rightarrow> string" where
  "strip s = rev (dropWhile is_space (rev (dropWhile is_space s)))"

text \<open>
  A file opened in text mode is read with universal newlines: \<open>\r\n\<close> and a lone \<open>\r\<close>
  both arrive as \<open>\n\<close>.
\<close>

fun universal_newlines :: "string \<Rightarrow> string" where
  "universal_newlines [] = []"
| "universal_newlines [a] = (if a = CR then [LF] else [a])"
| "universal_newlines (a # b # cs) =
     (if a = CR
      then (if b = LF then LF # universal_newlines cs
            else LF # universal_newlines (b # cs))
      else a # universal_newlines (b # cs))"

text \<open>Lines keep their newline; a last line without one is a line too.\<close>

fun split_lines :: "string \<Rightarrow> string list" where
  "split_lines [] = []"
| "split_lines (c # cs) =
     (if c = LF then [c] # split_lines cs
      else (case split_lines cs of
              [] \<Rightarrow> [[c]]
            | l # ls \<Rightarrow> (c # l) # ls))"

definition readlines :: "string \<Rightarrow> string list" where
  "readlines content = split_lines (universal_newlines content)"

text \<open>\<open>str.split(sep)\<close> for a separator of one character.\<close>

fun split_on :: "char \<Rightarrow> string \<Rightarrow> string list" where
  "split_on sep [] = [[]]"
| "split_on sep (c # cs) =
     (if c = sep then [] # split_on sep cs
      else (case split_on sep cs of
              [] \<Rightarrow> [[c]]
            | p # ps \<Rightarrow> (c # p) # ps))"

text \<open>
  The test \<open>not line.startswith("#") and not line == "\n"\<close> that selects the lines holding
  a key.
\<close>

definition is_key_line :: "string \<Rightarrow> bool" where
  "is_key_line line = (\<not> (case line of [] \<Rightarrow> False | c # _ \<Rightarrow> c = CHR ''#'') \<and> line \<noteq> [LF])"

text \<open>\<open>key, value = line.split("=")\<close>: unpacking anything but two parts raises.\<close>

definition parse_line :: "string \<Rightarrow> error + (string \<times> string)" where
  "parse_line line =
     (case split_on CHR ''='' line of
        [key, val] \<Rightarrow> Inr (strip key, strip val)
      | _ \<Rightarrow> Inl ValueError)"

text \<open>
  A \<open>dict\<close> is an association list in insertion order; assigning to an existing key
  replaces its value in place.
\<close>

type_synonym pydict = "(string \<times> string) list"

fun read_properties :: "string list \<Rightarrow> pydict \<Rightarrow> error + pydict" where
  "read_properties [] d = Inr d"
| "read_properties (line # rest) d =
     (if is_key_line line
      then (case parse_line line of
              Inl e \<Rightarrow> Inl e
            | Inr (key, val) \<Rightarrow> read_properties rest (AList.update key val d))
      else read_properties rest d)"

definition all_keys :: "pydict \<Rightarrow> pydict \<Rightarrow> string list" where
  "all_keys source_dict target_dict =
     sort (remdups (map fst source_dict @ map fst target_dict))"

definition resolve_key :: "pydict \<Rightarrow> pydict \<Rightarrow> pydict \<Rightarrow> string \<Rightarrow> pydict" where
  "resolve_key source_dict target_dict result_dict key =
     (case map_of target_dict key of
        Some tv \<Rightarrow>
          (case map_of source_dict key of
             Some sv \<Rightarrow> AList.update key sv result_dict
           | None \<Rightarrow> AList.update key tv result_dict)
      | None \<Rightarrow> result_dict)"

definition resolve :: "pydict \<Rightarrow> pydict \<Rightarrow> pydict" where
  "resolve source_dict target_dict =
     foldl (resolve_key source_dict target_dict) [] (all_keys source_dict target_dict)"

definition write_line :: "pydict \<Rightarrow> string \<Rightarrow> error + string" where
  "write_line result_dict line =
     (if is_key_line line
      then (let key = strip (hd (split_on CHR ''='' line))
            in case map_of result_dict key of
                 None \<Rightarrow> Inl KeyError
               | Some v \<Rightarrow> Inr (key @ ''='' @ v @ [LF]))
      else Inr line)"

fun write_lines :: "pydict \<Rightarrow> string list \<Rightarrow> error + string list" where
  "write_lines result_dict [] = Inr []"
| "write_lines result_dict (line # rest) =
     (case write_line result_dict line of
        Inl e \<Rightarrow> Inl e
      | Inr w \<Rightarrow>
          (case write_lines result_dict rest of
             Inl e \<Rightarrow> Inl e
           | Inr ws \<Rightarrow> Inr (w # ws)))"

text \<open>
  \<open>update_server_properties\<close> on the contents of the two files: the result is the text
  written to the target file, as the list of the strings passed to \<open>write\<close>, one for each
  line of the target. An error leaves the target file as it is (both files are parsed
  before the target is opened for writing).
\<close>

definition reconcile_lines :: "string \<Rightarrow> string \<Rightarrow> error + string list" where
  "reconcile_lines source target =
     (case read_properties (readlines source) [] of
        Inl e \<Rightarrow> Inl e
      | Inr source_dict \<Rightarrow>
          (case read_properties (readlines target) [] of
             Inl e \<Rightarrow> Inl e
           | Inr target_dict \<Rightarrow>
               write_lines (resolve source_dict target_dict) (readlines target)))"

definition update_server_properties :: "string \<Rightarrow> string \<Rightarrow> error + string" where
  "update_server_properties source target =
     (case reconcile_lines source target of
        Inl e \<Rightarrow> Inl e
      | Inr ws \<Rightarrow> Inr (concat ws))"

section \<open>File trees\<close>

text \<open>
  A directory entry is a regular file with its text or a directory with its entries;
  symbolic links and metadata are left out. A directory is an association list from
  names to entries, in the order \<open>os.listdir\<close> reports them.
\<close>

datatype node = File string | Dir "(string \<times> node) list"

type_synonym dir = "(string \<times> node) list"

definition listdir :: "dir \<Rightarrow> string list" where
  "listdir d = map fst d"

definition isfile :: "node option \<Rightarrow> bool" where
  "isfile x = (case x of Some (File _) \<Rightarrow> True | _ \<Rightarrow> False)"

definition file_names :: "dir \<Rightarrow> string list" where
  "file_names d = filter (\<lambda>n. isfile (map_of d n)) (listdir d)"

text \<open>
  The file system holds the directories the program is given, by path. Paths that
  differ as strings stand for different directories, none inside another.
\<close>

type_synonym fs = "string \<Rightarrow> dir option"





subsection \<open>\<open>shutil\<close>\<close>

text \<open>
  \<open>shutil.copy2(src, dst)\<close> of the file \<open>name\<close> with text \<open>c\<close>: a missing or regular
  destination becomes the file; a destination that is a directory receives the file
  under the source's name. The result is the destination afterwards and the exception,
  if any.
\<close>

fun copy2 :: "string \<Rightarrow> string \<Rightarrow> node option \<Rightarrow> node \<times> error option" where
  "copy2 name c None = (File c, None)"
| "copy2 name c (Some (File old)) = (File c, None)"
| "copy2 name c (Some (Dir es)) =
     (case map_of es name of
        Some (Dir sub) \<Rightarrow> (Dir es, Some IsADirectoryError)
      | _ \<Rightarrow> (Dir (AList.update name (File c) es), None))"

text \<open>
  The loop of \<open>shutil.copytree(src, dst, dirs_exist_ok=True)\<close> over the entries of the
  source: directories are merged recursively, files are copied with \<open>copy2\<close>; an error
  is recorded and the loop goes on.
\<close>

fun copy_entries :: "dir \<Rightarrow> dir \<Rightarrow> dir \<times> error list" where
  "copy_entries [] d = (d, [])"
| "copy_entries ((n, File c) # s) d =
     (case copy2 n c (map_of d n) of
        (x, e1) \<Rightarrow>
          (case copy_entries s (AList.update n x d) of
             (d', e2) \<Rightarrow> (d', (case e1 of None \<Rightarrow> [] | Some e \<Rightarrow> [e]) @ e2)))"
| "copy_entries ((n, Dir sub) # s) d =
     (case map_of d n of
        Some (File old) \<Rightarrow>
          (case copy_entries s d of (d', e2) \<Rightarrow> (d', FileExistsError # e2))
      | Some (Dir dd) \<Rightarrow>
          (case copy_entries sub dd of
             (x, e1) \<Rightarrow>
               (case copy_entries s (AList.update n (Dir x) d) of
                  (d', e2) \<Rightarrow> (d', e1 @ e2)))
      | None \<Rightarrow>
          (case copy_entries sub [] of
             (x, e1) \<Rightarrow>
               (case copy_entries s (AList.update n (Dir x) d) of
                  (d', e2) \<Rightarrow> (d', e1 @ e2))))"

text \<open>
  \<open>copytree\<close> creates the destination first, which fails on a regular file, and raises
  \<open>shutil.Error\<close> at the end when the loop recorded an error.
\<close>

definition copytree :: "dir \<Rightarrow> node option \<Rightarrow> node \<times> error option" where
  "copytree src dst =
     (case dst of
        Some (File old) \<Rightarrow> (File old, Some FileExistsError)
      | Some (Dir d) \<Rightarrow>
          (case copy_entries src d of
             (d', errs) \<Rightarrow> (Dir d', if errs = [] then None else Some ShutilError))
      | None \<Rightarrow>
          (case copy_entries src [] of
             (d', errs) \<Rightarrow> (Dir d', if errs = [] then None else Some ShutilError)))"

text \<open>\<open>shutil.rmtree\<close> removes a directory and refuses anything else.\<close>

definition rmtree :: "node option \<Rightarrow> error option" where
  "rmtree x =
     (case x of
        None \<Rightarrow> Some FileNotFoundError
      | Some (File c) \<Rightarrow> Some NotADirectoryError
      | Some (Dir d) \<Rightarrow> None)"

section \<open>Merging a release into an installation\<close>











section \<open>Retention\<close>

subsection \<open>\<open>sorted\<close> with a comparison function\<close>

text \<open>
  \<open>cmp_to_key(cmp)\<close> makes \<open>a < b\<close> mean \<open>cmp(a, b) < 0\<close>, the only comparison the sort
  uses. On a list shorter than 64 CPython's sort finds the run the list starts with
  (non-descending, or strictly descending and then reversed) and inserts the remaining
  elements one by one at the place a binary search gives. Longer lists are cut into such
  runs and merged; the sort is stable, so the result is the same whenever the comparison
  is a total preorder on the elements, which every statement about order below assumes.
\<close>

definition cmp_lt :: "('a \<Rightarrow> 'a \<Rightarrow> int) \<Rightarrow> 'a \<Rightarrow> 'a \<Rightarrow> bool" where
  "cmp_lt cmp a b = (cmp a b < 0)"

fun ascending_run :: "('a \<Rightarrow> 'a \<Rightarrow> bool) \<Rightarrow> 'a \<Rightarrow> 'a list \<Rightarrow> 'a list \<times> 'a list" where
  "ascending_run lt prev [] = ([], [])"
| "ascending_run lt prev (x # xs) =
     (if lt x prev then ([], x # xs)
      else (case ascending_run lt x xs of (run, rest) \<Rightarrow> (x # run, rest)))"

fun descending_run :: "('a \<Rightarrow> 'a \<Rightarrow> bool) \<Rightarrow> 'a \<Rightarrow> 'a list \<Rightarrow> 'a list \<times> 'a list" where
  "descending_run lt prev [] = ([], [])"
| "descending_run lt prev (x # xs) =
     (if lt x prev
      then (case descending_run lt x xs of (run, rest) \<Rightarrow> (x # run, rest))
      else ([], x # xs))"

definition count_run :: "('a \<Rightarrow> 'a \<Rightarrow> bool) \<Rightarrow> 'a list \<Rightarrow> 'a list \<times> 'a list" where
  "count_run lt xs =
     (case xs of
        [] \<Rightarrow> ([], [])
      | x # ys \<Rightarrow>
          if (case ys of [] \<Rightarrow> False | y # _ \<Rightarrow> lt y x)
          then (case descending_run lt x ys of (run, rest) \<Rightarrow> (rev (x # run), rest))
          else (case ascending_run lt x ys of (run, rest) \<Rightarrow> (x # run, rest)))"

function bisect :: "('a \<Rightarrow> 'a \<Rightarrow> bool) \<Rightarrow> 'a \<Rightarrow> 'a list \<Rightarrow> nat \<Rightarrow> nat \<Rightarrow> nat" where
  "bisect lt pivot xs l r =
     (if l < r
      then (let p = l + (r - l) div 2
            in if lt pivot (xs ! p) then bisect lt pivot xs l p
               else bisect lt pivot xs (p + 1) r)
      else l)"
  by pat_completeness auto
termination
  by (relation "measure (\<lambda>(lt, pivot, xs, l, r). r - l)") auto

definition binary_insert :: "('a \<Rightarrow> 'a \<Rightarrow> bool) \<Rightarrow> 'a list \<Rightarrow> 'a \<Rightarrow> 'a list" where
  "binary_insert lt xs pivot =
     (let l = bisect lt pivot xs 0 (length xs) in take l xs @ pivot # drop l xs)"

definition py_sorted :: "('a \<Rightarrow> 'a \<Rightarrow> bool) \<Rightarrow> 'a list \<Rightarrow> 'a list" where
  "py_sorted lt xs = (case count_run lt xs of (run, rest) \<Rightarrow> foldl (binary_insert lt) run rest)"

subsection \<open>Cached downloads\<close>

text \<open>\<open>all_versions[-max_num:]\<close>, taken only when \<open>max_num\<close> is positive.\<close>

definition keep_versions :: "int list list \<Rightarrow> int \<Rightarrow> int list list" where
  "keep_versions all_versions max_num = drop (length all_versions - nat max_num) all_versions"

definition should_delete :: "int list list \<Rightarrow> int \<Rightarrow> string \<Rightarrow> bool" where
  "should_delete all_versions max_num filename =
     (let this_version = extract_version filename
      in \<not> (max_num > 0 \<and>
             list_ex (\<lambda>keep_version. compare_version keep_version this_version = 0)
               (keep_versions all_versions max_num)))"

fun delete_files :: "(string \<Rightarrow> bool) \<Rightarrow> string list \<Rightarrow> dir \<Rightarrow> dir" where
  "delete_files del [] d = d"
| "delete_files del (filename # rest) d =
     (if isfile (map_of d filename) \<and> del filename
      then delete_files del rest (AList.delete filename d)
      else delete_files del rest d)"

definition delete_download_cache_files :: "dir \<Rightarrow> int \<Rightarrow> dir" where
  "delete_download_cache_files d max_num =
     (if max_num \<ge> 0
      then (let all_versions =
                  py_sorted (cmp_lt compare_version) (map extract_version (file_names d))
            in if int (length all_versions) > max_num
               then delete_files (should_delete all_versions max_num) (sort (listdir d)) d
               else d)
      else d)"

subsection \<open>Backups\<close>

text \<open>
  \<open>int(text)\<close>: surrounding whitespace is dropped, a sign may lead, and the digits may be
  grouped by single underscores.
\<close>

fun grouped_digits :: "string \<Rightarrow> bool" where
  "grouped_digits [] = False"
| "grouped_digits [c] = is_digit c"
| "grouped_digits (c # u # cs) =
     (is_digit c \<and> (if u = CHR ''_'' then grouped_digits cs else grouped_digits (u # cs)))"

definition py_int :: "string \<Rightarrow> error + int" where
  "py_int text =
     (let t = strip text;
          neg = (case t of [] \<Rightarrow> False | c # _ \<Rightarrow> c = CHR ''-'');
          body = (case t of [] \<Rightarrow> [] | c # r \<Rightarrow> if is_sign c then r else t)
      in if grouped_digits body
         then (let v = int_of_digits (filter is_digit body) in Inr (if neg then - v else v))
         else Inl ValueError)"

text \<open>The sort key \<open>int(x.split('-')[0])\<close>, computed for every file before any is moved.\<close>

fun timestamp_keys :: "string list \<Rightarrow> error + (int \<times> string) list" where
  "timestamp_keys [] = Inr []"
| "timestamp_keys (x # xs) =
     (case py_int (hd (split_on CHR ''-'' x)) of
        Inl e \<Rightarrow> Inl e
      | Inr k \<Rightarrow>
          (case timestamp_keys xs of
             Inl e \<Rightarrow> Inl e
           | Inr ks \<Rightarrow> Inr ((k, x) # ks)))"

text \<open>
  \<open>sorted(..., key=..., reverse=True)\<close> is stable: descending keys, equal keys in the
  order of the listing.
\<close>

definition delete_local_server_backup_files :: "dir \<Rightarrow> int \<Rightarrow> error + dir" where
  "delete_local_server_backup_files d max_num =
     (if max_num \<ge> 0
      then (case timestamp_keys (file_names d) of
              Inl e \<Rightarrow> Inl e
            | Inr keyed \<Rightarrow>
                (let all_files = map snd (sort_key (\<lambda>(k, x). - k) keyed)
                 in if int (length all_files) > max_num
                    then Inr (foldl (\<lambda>d' filename. AList.delete filename d') d
                                (drop (nat max_num) all_files))
                    else Inr d))
      else Inr d)"

section \<open>Backing up the installation\<close>

definition basename :: "string \<Rightarrow> string" where
  "basename path = last (split_on CHR ''/'' path)"

text \<open>
  The removal of an existing backup: \<open>os.remove\<close> when a regular file has the name of
  the archive.
\<close>

definition remove_existed :: "dir \<Rightarrow> string \<Rightarrow> dir" where
  "remove_existed d target_file =
     (if isfile (map_of d target_file) then AList.delete target_file d else d)"

text \<open>
  The creation of the archive: opening the archive file for writing creates it and fails
  on a directory of that name; a type other than \<open>zip\<close> and \<open>7z\<close> raises and nothing is
  written. \<open>pack\<close> stands for the archive writer, from the archive type and the
  installation to the bytes of the archive.
\<close>

definition create_archive ::
  "(string \<Rightarrow> node \<Rightarrow> string) \<Rightarrow> node \<Rightarrow> dir \<Rightarrow> string \<Rightarrow> string \<Rightarrow> error option \<times> dir" where
  "create_archive pack server d target_file type =
     (if type = ''zip'' \<or> type = ''7z''
      then (case map_of d target_file of
              Some (Dir sub) \<Rightarrow> (Some IsADirectoryError, d)
            | _ \<Rightarrow> (None, AList.update target_file (File (pack type server)) d))
      else (Some ValueError, d))"

text \<open>
  \<open>backup_local_server\<close>: \<open>now_time\<close> is the current time to the minute as
  \<open>%Y%m%d%H%M\<close>; \<open>d\<close> is the backup directory, created empty when missing. The
  existing backup is removed first, then the archive is created.
\<close>

definition backup_local_server ::
  "(string \<Rightarrow> node \<Rightarrow> string) \<Rightarrow> string \<Rightarrow> string \<Rightarrow> node \<Rightarrow> dir \<Rightarrow> string \<Rightarrow> error option \<times> dir" where
  "backup_local_server pack now_time server_dir server d type =
     (let target_name = now_time @ ''-'' @ basename server_dir;
          target_file = target_name @ ''.'' @ type
      in create_archive pack server (remove_existed d target_file) target_file type)"

section \<open>Fetching the latest release\<close>

text \<open>
  The collaborators: the answer to the request for the listing page, the answer to the
  request for the archive (status code and bytes), and what unpacking given bytes
  yields.
\<close>

datatype unpacked = Unpacked dir | Corrupt "dir option"

record remote =
  response :: "error + string"
  server_file :: "error + (nat \<times> string)"
  unpack :: "string \<Rightarrow> unpacked"

text \<open>
  \<open>re.search\<close> for the download address: in the template every dot stands for any
  character but a newline, and the match runs on up to the next double quote.
\<close>

definition download_url_template :: string where
  "download_url_template = ''https://www.minecraft.net/bedrockdedicatedserver/bin-linux/''"

fun match_template :: "string \<Rightarrow> string \<Rightarrow> bool" where
  "match_template [] s = True"
| "match_template (t # ts) [] = False"
| "match_template (t # ts) (c # cs) =
     ((if t = CHR ''.'' then c \<noteq> LF else c = t) \<and> match_template ts cs)"

fun search_download_url :: "string \<Rightarrow> string option" where
  "search_download_url [] = None"
| "search_download_url (c # cs) =
     (if match_template download_url_template (c # cs)
      then Some (take (length download_url_template) (c # cs) @
                 takeWhile (\<lambda>x. x \<noteq> CHR 0x22) (drop (length download_url_template) (c # cs)))
      else search_download_url cs)"

text \<open>\<open>file_name.replace(".zip", "")\<close>\<close>

fun remove_zip :: "string \<Rightarrow> string" where
  "remove_zip (a # b # c # d # cs) =
     (if [a, b, c, d] = ''.zip'' then remove_zip cs else a # remove_zip (b # c # d # cs))"
| "remove_zip cs = cs"

text \<open>
  Unpacking the archive \<open>file_name\<close> of the download directory \<open>d\<close> into its entry
  \<open>extract_name\<close>: the members are written over what is there, as a merging copy does.
  A corrupt archive raises, after leaving whatever it had written.
\<close>

definition extractall :: "remote \<Rightarrow> dir \<Rightarrow> string \<Rightarrow> string \<Rightarrow> error option \<times> dir" where
  "extractall r d file_name extract_name =
     (case map_of d file_name of
        Some (File bytes) \<Rightarrow>
          (case unpack r bytes of
             Unpacked tree \<Rightarrow>
               (case copytree tree (map_of d extract_name) of
                  (x, e) \<Rightarrow> (e, AList.update extract_name x d))
           | Corrupt None \<Rightarrow> (Some BadZipFile, d)
           | Corrupt (Some part) \<Rightarrow>
               (case copytree part (map_of d extract_name) of
                  (x, e) \<Rightarrow> (Some BadZipFile, AList.update extract_name x d)))
      | Some (Dir sub) \<Rightarrow> (Some IsADirectoryError, d)
      | None \<Rightarrow> (Some FileNotFoundError, d))"

text \<open>
  The use of a cached archive. When unpacking it raises, the handler calls \<open>rmtree\<close> on
  the archive and on the extraction directory; an exception of the handler leaves the
  function through its outer handler.
\<close>

datatype cache_outcome = Extracted | Redownload | Raised

definition try_cache :: "remote \<Rightarrow> dir \<Rightarrow> string \<Rightarrow> string \<Rightarrow> cache_outcome \<times> dir" where
  "try_cache r d file_name extract_name =
     (if isfile (map_of d file_name)
      then (case extractall r d file_name extract_name of
              (None, d1) \<Rightarrow> (Extracted, d1)
            | (Some e, d1) \<Rightarrow>
                (case rmtree (map_of d1 file_name) of
                   Some e1 \<Rightarrow> (Raised, d1)
                 | None \<Rightarrow>
                     (let d2 = AList.delete file_name d1
                      in case rmtree (map_of d2 extract_name) of
                           Some e2 \<Rightarrow> (Raised, d2)
                         | None \<Rightarrow> (Redownload, AList.delete extract_name d2))))
      else (Redownload, d))"

text \<open>
  The download: the result is the name of the extraction directory inside the download
  directory on success, the download directory afterwards, and the number of requests
  made for the archive.
\<close>

definition download :: "remote \<Rightarrow> dir \<Rightarrow> string \<Rightarrow> string \<Rightarrow> string option \<times> dir \<times> nat" where
  "download r d file_name extract_name =
     (case server_file r of
        Inl e \<Rightarrow> (None, d, 1)
      | Inr (status_code, content) \<Rightarrow>
          if status_code = 200
          then (case (if file_name = [] then Some (Dir []) else map_of d file_name) of
                  Some (Dir sub) \<Rightarrow> (None, d, 1)
                | _ \<Rightarrow>
                    (case extractall r (AList.update file_name (File content) d)
                            file_name extract_name of
                       (None, d2) \<Rightarrow> (Some extract_name, d2, 1)
                     | (Some e, d2) \<Rightarrow> (None, d2, 1)))
          else (None, d, 1))"

definition download_and_extract_latest_server ::
  "remote \<Rightarrow> dir \<Rightarrow> int list \<Rightarrow> string option \<times> dir \<times> nat" where
  "download_and_extract_latest_server r d local_version =
     (case response r of
        Inl e \<Rightarrow> (None, d, 0)
      | Inr text \<Rightarrow>
          (case search_download_url text of
             None \<Rightarrow> (None, d, 0)
           | Some download_url \<Rightarrow>
               (let remote_version = extract_version download_url
                in if compare_version local_version remote_version < 0
                   then (let file_name = last (split_on CHR ''/'' download_url);
                             extract_name = remove_zip file_name
                         in case try_cache r d file_name extract_name of
                              (Extracted, d1) \<Rightarrow> (Some extract_name, d1, 0)
                            | (Raised, d1) \<Rightarrow> (None, d1, 0)
                            | (Redownload, d1) \<Rightarrow> download r d1 file_name extract_name)
                   else (None, d, 0))))"


section \<open>Documents as the specification describes them\<close>

text \<open>
  A line that holds a key is malformed unless it has exactly one \<open>=\<close>; a document is
  well formed when none of its lines is malformed.
\<close>

definition malformed :: "string \<Rightarrow> bool" where
  "malformed line = (is_key_line line \<and> count_list line CHR ''='' \<noteq> 1)"

definition well_formed :: "string \<Rightarrow> bool" where
  "well_formed content = list_all (\<lambda>line. \<not> malformed line) (readlines content)"

text \<open>
  The same in the words of the specification, where a blank line is a line of nothing
  but whitespace: every line is a comment, blank, or has exactly one \<open>=\<close>.
\<close>

definition comment_line :: "string \<Rightarrow> bool" where
  "comment_line line = (case line of [] \<Rightarrow> False | c # _ \<Rightarrow> c = CHR ''#'')"

definition blank_line :: "string \<Rightarrow> bool" where
  "blank_line line = (strip line = [])"

definition well_formed_as_worded :: "string \<Rightarrow> bool" where
  "well_formed_as_worded content =
     list_all (\<lambda>line. comment_line line \<or> blank_line line \<or> count_list line CHR ''='' = 1)
       (readlines content)"

text \<open>The key and the value of a line, trimmed: the text before and after its \<open>=\<close>.\<close>

definition key_of :: "string \<Rightarrow> string" where
  "key_of line = strip (hd (split_on CHR ''='' line))"

definition value_of :: "string \<Rightarrow> string" where
  "value_of line = strip (last (split_on CHR ''='' line))"

text \<open>
  The value a document gives to a key: that of the last line holding the key, if there
  is one.
\<close>

definition document_value :: "string list \<Rightarrow> string \<Rightarrow> string option" where
  "document_value lines key =
     (let ls = filter (\<lambda>l. is_key_line l \<and> key_of l = key) lines
      in if ls = [] then None else Some (value_of (last ls)))"


text \<open>
  The value the specification resolves a key of the target to: the source's value if
  the source has the key, the target's own value otherwise.
\<close>

definition resolved_value :: "string list \<Rightarrow> string list \<Rightarrow> string \<Rightarrow> string" where
  "resolved_value source_lines target_lines key =
     (case document_value source_lines key of
        Some sv \<Rightarrow> sv
      | None \<Rightarrow>
          (case document_value target_lines key of
             Some tv \<Rightarrow> tv
           | None \<Rightarrow> []))"

text \<open>
  The line the specification has written for a line of the target: a comment or blank
  line as it is, a key line as the key, \<open>=\<close>, the resolved value and a newline.
\<close>

definition resolved_line :: "string list \<Rightarrow> string list \<Rightarrow> string \<Rightarrow> string" where
  "resolved_line source_lines target_lines line =
     (if is_key_line line
      then key_of line @ ''='' @ resolved_value source_lines target_lines (key_of line) @ [LF]
      else line)"




definition isdir :: "node option \<Rightarrow> bool" where
  "isdir x = (case x of Some (Dir _) \<Rightarrow> True | _ \<Rightarrow> False)"

text \<open>The name \<open>backup_local_server\<close> gives the archive.\<close>

definition backup_name :: "string \<Rightarrow> string \<Rightarrow> string \<Rightarrow> string" where
  "backup_name now_time server_dir type = now_time @ ''-'' @ basename server_dir @ ''.'' @ type"

text \<open>
  An example of the collaborators: the listing page names release 1.21.0.03, the bytes
  \<open>good\<close> unpack to a release, any other bytes are a corrupt archive that leaves a
  partial extraction behind.
\<close>

definition example_page :: string where
  "example_page =
     ''<a href='' @ [CHR 0x22] @
     ''https://www.minecraft.net/bedrockdedicatedserver/bin-linux/bedrock-server-1.21.0.03.zip'' @
     [CHR 0x22] @ ''>''"

definition example_remote :: remote where
  "example_remote =
     \<lparr>response = Inr example_page,
      server_file = Inr (200, ''good''),
      unpack = (\<lambda>bytes. if bytes = ''good''
                         then Unpacked [(''bedrock_server'', File ''binary'')]
                         else Corrupt (Some [(''bedrock_server'', File '''')]))\<rparr>"





section \<open>Example trees\<close>








text \<open>An archive writer for the examples: the archive names its type and its content.\<close>

definition example_pack :: "string \<Rightarrow> node \<Rightarrow> string" where
  "example_pack type server =
     type @ '':'' @ (case server of File c \<Rightarrow> c | Dir sub \<Rightarrow> ''tree'')"

definition example_backups :: dir where
  "example_backups =
     [(''202401010000-server.zip'', File ''old''),
      (''202312312359-server.zip'', File ''older''),
      (''202401010000-server.rar'', File ''foreign'')]"




text \<open>The version vectors of the cached files, in the order of the listing.\<close>

definition cached_versions :: "dir \<Rightarrow> int list list" where
  "cached_versions d = map extract_version (file_names d)"


text \<open>All cached files have version vectors of the length \<open>k\<close>.\<close>

definition uniform_versions :: "dir \<Rightarrow> nat \<Rightarrow> bool" where
  "uniform_versions d k = list_all (\<lambda>v. length v = k) (cached_versions d)"


text \<open>
  A download directory with two archives of the latest version, and one whose file
  names give version vectors of different lengths.
\<close>

definition example_cache :: dir where
  "example_cache =
     [(''bedrock-server-1.20.zip'', File ''a''),
      (''bedrock-server-1.21.zip'', File ''b''),
      (''copy-of-server-1.21.zip'', File ''c''),
      (''bedrock-server-1.19.zip'', File ''d''),
      (''unpacked'', Dir [])]"

definition mixed_cache :: dir where
  "mixed_cache =
     [(''a-1.1.zip'', File ''a''), (''b-0.zip'', File ''b''),
      (''c-1.zip'', File ''c''), (''d-1.0.zip'', File ''d'')]"

text \<open>A backup directory with two backups of the same minute.\<close>

definition example_saved :: dir where
  "example_saved =
     [(''202401010000-server.zip'', File ''a''),
      (''202401010000-world.zip'', File ''b''),
      (''202401020000-server.zip'', File ''c''),
      (''notes'', Dir [])]"

section \<open>Properties of version vectors\<close>

lemma compare_version_equal_prefix:
  "take (min (length a) (length b)) a = take (min (length a) (length b)) b \<Longrightarrow>
   compare_version a b = 0"
  by (induction a b rule: compare_version.induct) auto

lemma compare_version_first_difference:
  "i < min (length a) (length b) \<Longrightarrow> take i a = take i b \<Longrightarrow> a ! i \<noteq> b ! i \<Longrightarrow>
   compare_version a b = (if a ! i < b ! i then - 1 else 1)"
proof (induction a b arbitrary: i rule: compare_version.induct)
  case (1 x xs y ys)
  show ?case
  proof (cases i)
    case 0
    with 1 show ?thesis by auto
  next
    case (Suc j)
    with 1 show ?thesis by auto
  qed
qed auto

text \<open>
  C4. \<open>compare_version\<close> looks at the components both vectors have: when these agree the
  result is 0 (EQUAL) whatever the lengths; otherwise the first position where they
  differ decides, -1 (LESS) or 1 (GREATER). In particular \<open>[1,2]\<close> against \<open>[1,2,3]\<close> is
  EQUAL, \<open>[1,3]\<close> against \<open>[1,2,3]\<close> is GREATER, and \<open>[]\<close> against \<open>[1]\<close> is EQUAL.
\<close>

theorem compare_version_shared_prefix:
  "(take (min (length a) (length b)) a = take (min (length a) (length b)) b \<longrightarrow>
      compare_version a b = 0) \<and>
   (\<forall>i < min (length a) (length b).
      take i a = take i b \<and> a ! i \<noteq> b ! i \<longrightarrow>
      compare_version a b = (if a ! i < b ! i then - 1 else 1)) \<and>
   compare_version [1, 2] [1, 2, 3] = 0 \<and>
   compare_version [1, 3] [1, 2, 3] = 1 \<and>
   compare_version [] [1] = 0"
proof (intro conjI allI impI)
  assume "take (min (length a) (length b)) a = take (min (length a) (length b)) b"
  then show "compare_version a b = 0" by (rule compare_version_equal_prefix)
next
  fix i
  assume "i < min (length a) (length b)" and "take i a = take i b \<and> a ! i \<noteq> b ! i"
  then show "compare_version a b = (if a ! i < b ! i then - 1 else 1)"
    using compare_version_first_difference [of i a b] by blast
qed simp_all

theorem compare_version_shared_prefix_witness:
  "take (min (length [1, 2 :: int]) (length [1, 2, 3 :: int])) [1, 2 :: int] =
     take (min (length [1, 2 :: int]) (length [1, 2, 3 :: int])) [1, 2, 3] \<and>
   compare_version [1, 2] [1, 2, 3] = 0 \<and>
   (1::nat) < min (length [1, 3 :: int]) (length [1, 2, 3 :: int]) \<and>
   take 1 [1, 3 :: int] = take 1 [1, 2, 3] \<and> [1, 3 :: int] ! 1 \<noteq> [1, 2, 3] ! 1 \<and>
   compare_version [1, 3] [1, 2, 3] = 1"
proof -
  have e: "take (min (length [1, 2 :: int]) (length [1, 2, 3 :: int])) [1, 2 :: int] =
     take (min (length [1, 2 :: int]) (length [1, 2, 3 :: int])) [1, 2, 3]"
    by simp
  with compare_version_shared_prefix [of "[1, 2]" "[1, 2, 3]"]
  have r0: "compare_version [1, 2] [1, 2, 3] = 0" by blast
  have h: "(1::nat) < min (length [1, 3 :: int]) (length [1, 2, 3 :: int])"
    "take 1 [1, 3 :: int] = take 1 [1, 2, 3] \<and> [1, 3 :: int] ! 1 \<noteq> [1, 2, 3] ! 1"
    by simp_all
  from compare_version_shared_prefix [of "[1, 3]" "[1, 2, 3]"]
  have "\<forall>i < min (length [1, 3 :: int]) (length [1, 2, 3 :: int]).
      take i [1, 3 :: int] = take i [1, 2, 3] \<and> [1, 3 :: int] ! i \<noteq> [1, 2, 3] ! i \<longrightarrow>
      compare_version [1, 3] [1, 2, 3] =
        (if [1, 3 :: int] ! i < [1, 2, 3] ! i then - 1 else 1)"
    by blast
  with h have "compare_version [1, 3] [1, 2, 3] =
      (if [1, 3 :: int] ! 1 < [1, 2, 3] ! 1 then - 1 else 1)"
    by blast
  then have r1: "compare_version [1, 3] [1, 2, 3] = 1" by simp
  from e r0 h r1 show ?thesis by blast
qed

section \<open>Properties of number extraction\<close>

text \<open>
  C8. With sign and float matching both enabled the sign is part of the decimal
  alternative only: in \<open>-5\<close> the token found is \<open>5\<close>, while the pattern without float
  matching finds \<open>-5\<close>, and a decimal keeps its sign.
\<close>

theorem extract_numbers_drops_integer_sign:
  "extract_numbers ''-5'' True True = [PyInt 5] \<and>
   extract_numbers ''-5'' False True = [PyInt (- 5)] \<and>
   extract_numbers ''-5.0'' True True = [PyFloat ''-5.0'']"
  by code_simp


lemma re_digits_token:
  "re_digits s = Some (m, rest) \<Longrightarrow> m \<noteq> [] \<and> (\<forall>c \<in> set m. is_digit c)"
  unfolding re_digits_def Let_def
  by (metis Pair_inject option.distinct(1) option.inject set_takeWhileD)

lemma findall_digits_tokens:
  "m \<in> set (findall re_digits s) \<Longrightarrow> m \<noteq> [] \<and> (\<forall>c \<in> set m. is_digit c)"
proof (induction s arbitrary: m rule: length_induct)
  case (1 s)
  have IH: "\<And>ys. length ys < length s \<Longrightarrow> m \<in> set (findall re_digits ys) \<Longrightarrow>
              m \<noteq> [] \<and> (\<forall>c \<in> set m. is_digit c)"
    using 1(1) by blast
  show ?case
  proof (cases s)
    case Nil
    with 1(2) show ?thesis by simp
  next
    case (Cons c cs)
    have short: "length cs < length s" using Cons by simp
    show ?thesis
    proof (cases "re_digits (c # cs)")
      case None
      with 1(2) Cons have "m \<in> set (findall re_digits cs)" by simp
      with IH short show ?thesis by blast
    next
      case (Some r)
      obtain t rest where r: "r = (t, rest)" by (cases r)
      from Some r have tok: "t \<noteq> [] \<and> (\<forall>c \<in> set t. is_digit c)"
        using re_digits_token by blast
      from 1(2) Cons Some r
      have "m = t \<or> (length rest \<le> length cs \<and> m \<in> set (findall re_digits rest))
            \<or> m \<in> set (findall re_digits cs)"
        by (auto split: if_splits)
      then consider "m = t" | "length rest < length s" "m \<in> set (findall re_digits rest)"
        | "m \<in> set (findall re_digits cs)"
        using Cons by auto
      then show ?thesis
      proof cases
        case 1
        with tok show ?thesis by simp
      next
        case 2
        with IH show ?thesis by blast
      next
        case 3
        with IH short show ?thesis by blast
      qed
    qed
  qed
qed

lemma digit_token_number:
  assumes "m \<noteq> []" "\<forall>c \<in> set m. is_digit c"
  shows "to_number m = PyInt (int_of_digits m)"
proof -
  from assms obtain c cs where m: "m = c # cs" by (cases m) auto
  with assms have "is_digit c" by simp
  then have s: "c \<noteq> CHR ''-''" "c \<noteq> CHR ''+''" by (auto simp: is_digit_def)
  have "\<not> is_digit CHR ''.''" by (simp add: is_digit_def)
  with assms(2) have "CHR ''.'' \<notin> set m" by blast
  with s show ?thesis by (simp add: to_number_def m)
qed

lemma extract_numbers_version:
  "extract_numbers s False False = map PyInt (extract_version s)"
  unfolding extract_numbers_def extract_version_def pattern_def
  using digit_token_number findall_digits_tokens by simp


lemma split_on_not_Nil: "split_on sep s \<noteq> []"
  by (induction s) (simp_all split: list.splits)

lemma length_split_on: "length (split_on sep s) = Suc (count_list s sep)"
proof (induction s)
  case Nil
  then show ?case by simp
next
  case (Cons c s)
  obtain p ps where "split_on sep s = p # ps"
    using split_on_not_Nil [of sep s] by (cases "split_on sep s") auto
  with Cons show ?case by simp
qed

lemma split_on_two:
  assumes "count_list line sep = 1"
  shows "\<exists>k v. split_on sep line = [k, v]"
proof -
  have "length (split_on sep line) = Suc (Suc 0)"
    using assms by (simp add: length_split_on)
  then show ?thesis by (auto simp: length_Suc_conv)
qed

lemma parse_line_one_delimiter:
  assumes "count_list line CHR ''='' = 1"
  shows "parse_line line = Inr (key_of line, value_of line)"
proof -
  from split_on_two [OF assms] obtain k v where kv: "split_on CHR ''='' line = [k, v]"
    by blast
  then show ?thesis
    by (simp add: parse_line_def key_of_def value_of_def)
qed

lemma parse_line_other:
  assumes "count_list line CHR ''='' \<noteq> 1"
  shows "parse_line line = Inl ValueError"
proof -
  have n: "length (split_on CHR ''='' line) \<noteq> 2"
    using assms by (simp add: length_split_on)
  show ?thesis
  proof (cases "split_on CHR ''='' line")
    case Nil
    then show ?thesis by (simp add: parse_line_def)
  next
    case (Cons a r)
    note c1 = this
    show ?thesis
    proof (cases r)
      case Nil
      with c1 show ?thesis by (simp add: parse_line_def)
    next
      case (Cons b r2)
      with c1 n have "r2 \<noteq> []" by auto
      then obtain c r3 where "r2 = c # r3" by (cases r2) auto
      with c1 Cons show ?thesis by (simp add: parse_line_def)
    qed
  qed
qed

lemma document_value_Nil: "document_value [] k = None"
  by (simp add: document_value_def)

lemma document_value_Cons:
  "document_value (l # ls) k =
     (case document_value ls k of
        Some v \<Rightarrow> Some v
      | None \<Rightarrow> if is_key_line l \<and> key_of l = k then Some (value_of l) else None)"
  by (simp add: document_value_def Let_def)

lemma read_properties_malformed:
  "\<exists>l \<in> set ls. malformed l \<Longrightarrow> read_properties ls d = Inl ValueError"
proof (induction ls arbitrary: d)
  case Nil
  then show ?case by simp
next
  case (Cons l ls)
  show ?case
  proof (cases "malformed l")
    case True
    then show ?thesis by (simp add: malformed_def parse_line_other)
  next
    case False
    with Cons.prems have ex: "\<exists>l \<in> set ls. malformed l" by simp
    show ?thesis
    proof (cases "is_key_line l")
      case True
      with False have "count_list l CHR ''='' = 1" by (simp add: malformed_def)
      then show ?thesis using True Cons.IH [OF ex] by (simp add: parse_line_one_delimiter)
    next
      case False
      then show ?thesis using Cons.IH [OF ex] by simp
    qed
  qed
qed

lemma read_properties_well_formed:
  "\<forall>l \<in> set ls. \<not> malformed l \<Longrightarrow>
   \<exists>d'. read_properties ls d = Inr d' \<and>
        (\<forall>k. map_of d' k =
           (case document_value ls k of Some v \<Rightarrow> Some v | None \<Rightarrow> map_of d k))"
proof (induction ls arbitrary: d)
  case Nil
  then show ?case by (simp add: document_value_Nil)
next
  case (Cons l ls)
  then have wf: "\<forall>l \<in> set ls. \<not> malformed l" by simp
  show ?case
  proof (cases "is_key_line l")
    case True
    with Cons.prems have one: "count_list l CHR ''='' = 1" by (simp add: malformed_def)
    from Cons.IH [OF wf, of "AList.update (key_of l) (value_of l) d"]
    obtain d' where d': "read_properties ls (AList.update (key_of l) (value_of l) d) = Inr d'"
      "\<forall>k. map_of d' k =
         (case document_value ls k of Some v \<Rightarrow> Some v
          | None \<Rightarrow> map_of (AList.update (key_of l) (value_of l) d) k)"
      by blast
    have "read_properties (l # ls) d = Inr d'"
      using True one d'(1) by (simp add: parse_line_one_delimiter)
    moreover have "\<forall>k. map_of d' k =
           (case document_value (l # ls) k of Some v \<Rightarrow> Some v | None \<Rightarrow> map_of d k)"
      using d'(2) True by (simp add: document_value_Cons update_conv' split: option.splits)
    ultimately show ?thesis by blast
  next
    case False
    from Cons.IH [OF wf, of d]
    obtain d' where d': "read_properties ls d = Inr d'"
      "\<forall>k. map_of d' k =
         (case document_value ls k of Some v \<Rightarrow> Some v | None \<Rightarrow> map_of d k)"
      by blast
    have "read_properties (l # ls) d = Inr d'" using False d'(1) by simp
    moreover have "\<forall>k. map_of d' k =
           (case document_value (l # ls) k of Some v \<Rightarrow> Some v | None \<Rightarrow> map_of d k)"
      using d'(2) False by (simp add: document_value_Cons split: option.splits)
    ultimately show ?thesis by blast
  qed
qed


text \<open>The resolution of one key, in closed form.\<close>

lemma map_of_resolve_key:
  "map_of (resolve_key sd td rd key) k =
     (if k = key \<and> map_of td key \<noteq> None
      then (case map_of sd key of Some sv \<Rightarrow> Some sv | None \<Rightarrow> map_of td key)
      else map_of rd k)"
  by (auto simp: resolve_key_def update_conv' split: option.splits)

lemma map_of_foldl_resolve_key:
  "map_of (foldl (resolve_key sd td) rd ks) k =
     (if k \<in> set ks \<and> map_of td k \<noteq> None
      then (case map_of sd k of Some sv \<Rightarrow> Some sv | None \<Rightarrow> map_of td k)
      else map_of rd k)"
proof (induction ks arbitrary: rd)
  case Nil
  then show ?case by simp
next
  case (Cons key ks)
  show ?case
    by (auto simp: Cons.IH map_of_resolve_key)
qed

lemma map_of_resolve:
  "map_of (resolve sd td) k =
     (case map_of td k of
        None \<Rightarrow> None
      | Some tv \<Rightarrow> (case map_of sd k of Some sv \<Rightarrow> Some sv | None \<Rightarrow> Some tv))"
proof (cases "map_of td k")
  case None
  then show ?thesis by (simp add: resolve_def map_of_foldl_resolve_key)
next
  case (Some tv)
  then have "k \<in> fst ` set td" by (metis map_of_eq_None_iff option.distinct(1))
  then have "k \<in> set (all_keys sd td)" by (auto simp: all_keys_def)
  with Some show ?thesis
    by (simp add: resolve_def map_of_foldl_resolve_key split: option.splits)
qed

lemma write_lines_map:
  "\<forall>l \<in> set ls. is_key_line l \<longrightarrow> map_of rd (key_of l) \<noteq> None \<Longrightarrow>
   write_lines rd ls =
     Inr (map (\<lambda>l. if is_key_line l
                    then key_of l @ ''='' @ the (map_of rd (key_of l)) @ [LF]
                    else l) ls)"
proof (induction ls)
  case Nil
  then show ?case by simp
next
  case (Cons l ls)
  then have IH: "write_lines rd ls =
     Inr (map (\<lambda>l. if is_key_line l
                    then key_of l @ ''='' @ the (map_of rd (key_of l)) @ [LF]
                    else l) ls)"
    by simp
  show ?case
  proof (cases "is_key_line l")
    case True
    with Cons.prems obtain v where "map_of rd (key_of l) = Some v" by auto
    with True IH show ?thesis by (simp add: write_line_def key_of_def Let_def)
  next
    case False
    with IH show ?thesis by (simp add: write_line_def)
  qed
qed

lemma document_value_key_line:
  "l \<in> set ls \<Longrightarrow> is_key_line l \<Longrightarrow> document_value ls (key_of l) \<noteq> None"
  by (auto simp: document_value_def Let_def filter_empty_conv)


lemma well_formed_iff:
  "well_formed content = (\<forall>line \<in> set (readlines content). \<not> malformed line)"
  by (simp add: well_formed_def list_all_iff)

lemma read_properties_document:
  assumes "\<forall>l \<in> set ls. \<not> malformed l"
  shows "\<exists>d'. read_properties ls [] = Inr d' \<and> (\<forall>k. map_of d' k = document_value ls k)"
proof -
  from read_properties_well_formed [OF assms, of "[]"]
  obtain d' where d': "read_properties ls [] = Inr d'"
    and m: "\<And>k. map_of d' k =
       (case document_value ls k of Some v \<Rightarrow> Some v | None \<Rightarrow> map_of [] k)"
    by blast
  have "map_of d' k = document_value ls k" for k
    using m [of k] by (cases "document_value ls k") simp_all
  with d' show ?thesis by blast
qed

lemma reconcile_lines_well_formed:
  assumes "well_formed source" "well_formed target"
  shows "reconcile_lines source target =
           Inr (map (resolved_line (readlines source) (readlines target)) (readlines target))"
proof -
  let ?sl = "readlines source" and ?tl = "readlines target"
  from assms(1) have "\<forall>l \<in> set ?sl. \<not> malformed l" by (simp add: well_formed_iff)
  from read_properties_document [OF this]
  obtain sd where sd: "read_properties ?sl [] = Inr sd"
    "\<forall>k. map_of sd k = document_value ?sl k"
    by blast
  from assms(2) have "\<forall>l \<in> set ?tl. \<not> malformed l" by (simp add: well_formed_iff)
  from read_properties_document [OF this]
  obtain td where td: "read_properties ?tl [] = Inr td"
    "\<forall>k. map_of td k = document_value ?tl k"
    by blast
  have rd: "map_of (resolve sd td) k =
     (case document_value ?tl k of
        None \<Rightarrow> None
      | Some tv \<Rightarrow> (case document_value ?sl k of Some sv \<Rightarrow> Some sv | None \<Rightarrow> Some tv))" for k
    using sd(2) td(2) by (simp add: map_of_resolve split: option.splits)
  have present: "\<forall>l \<in> set ?tl. is_key_line l \<longrightarrow> map_of (resolve sd td) (key_of l) \<noteq> None"
  proof (intro ballI impI)
    fix l assume "l \<in> set ?tl" "is_key_line l"
    then have "document_value ?tl (key_of l) \<noteq> None" by (rule document_value_key_line)
    then show "map_of (resolve sd td) (key_of l) \<noteq> None"
      by (auto simp: rd split: option.splits)
  qed
  have "write_lines (resolve sd td) ?tl =
     Inr (map (\<lambda>l. if is_key_line l
                    then key_of l @ ''='' @ the (map_of (resolve sd td) (key_of l)) @ [LF]
                    else l) ?tl)"
    using present by (rule write_lines_map)
  also have "map (\<lambda>l. if is_key_line l
                    then key_of l @ ''='' @ the (map_of (resolve sd td) (key_of l)) @ [LF]
                    else l) ?tl = map (resolved_line ?sl ?tl) ?tl"
  proof (rule map_cong [OF refl])
    fix l assume l: "l \<in> set ?tl"
    show "(if is_key_line l
           then key_of l @ ''='' @ the (map_of (resolve sd td) (key_of l)) @ [LF]
           else l) = resolved_line ?sl ?tl l"
    proof (cases "is_key_line l")
      case True
      with l have "document_value ?tl (key_of l) \<noteq> None" by (rule_tac document_value_key_line)
      with True show ?thesis
        by (auto simp: resolved_line_def resolved_value_def rd split: option.splits)
    next
      case False
      then show ?thesis by (simp add: resolved_line_def)
    qed
  qed
  finally show ?thesis using sd(1) td(1) by (simp add: reconcile_lines_def)
qed

lemma reconcile_lines_malformed:
  assumes "\<not> well_formed source \<or> \<not> well_formed target"
  shows "reconcile_lines source target = Inl ValueError"
proof (cases "well_formed source")
  case False
  then have "read_properties (readlines source) [] = Inl ValueError"
    by (intro read_properties_malformed) (simp add: well_formed_iff)
  then show ?thesis by (simp add: reconcile_lines_def)
next
  case True
  then have "\<forall>l \<in> set (readlines source). \<not> malformed l" by (simp add: well_formed_iff)
  from read_properties_document [OF this]
  obtain sd where sd: "read_properties (readlines source) [] = Inr sd"
    by blast
  from True assms have "\<not> well_formed target" by simp
  then have "read_properties (readlines target) [] = Inl ValueError"
    by (intro read_properties_malformed) (simp add: well_formed_iff)
  with sd show ?thesis by (simp add: reconcile_lines_def)
qed

lemma update_server_properties_well_formed:
  assumes "well_formed source" "well_formed target"
  shows "update_server_properties source target =
           Inr (concat (map (resolved_line (readlines source) (readlines target))
                  (readlines target)))"
  using reconcile_lines_well_formed [OF assms] by (simp add: update_server_properties_def)

lemma update_server_properties_malformed:
  assumes "\<not> well_formed source \<or> \<not> well_formed target"
  shows "update_server_properties source target = Inl ValueError"
  using reconcile_lines_malformed [OF assms] by (simp add: update_server_properties_def)


section \<open>Properties of the reconciliation\<close>

text \<open>
  C7, as amended. \<open>update_server_properties\<close> raises \<open>ValueError\<close> exactly when one of
  the two documents has a line that does not start with \<open>#\<close>, is not the bare newline
  and does not have exactly one \<open>=\<close> (none, or several); no such line is skipped or
  guessed at. A line of blanks, or a comment after leading blanks, is such a line. When
  no line of either document is of this kind, no error is raised and the target is
  written.
\<close>

theorem update_server_properties_malformed_iff:
  "((update_server_properties source target = Inl ValueError) =
      (\<exists>line \<in> set (readlines source @ readlines target). malformed line)) \<and>
   ((\<forall>line \<in> set (readlines source @ readlines target). \<not> malformed line) \<longrightarrow>
      (\<exists>new. update_server_properties source target = Inr new))"
proof (cases "well_formed source \<and> well_formed target")
  case True
  then have "update_server_properties source target =
           Inr (concat (map (resolved_line (readlines source) (readlines target))
                  (readlines target)))"
    by (simp add: update_server_properties_well_formed)
  with True show ?thesis by (auto simp: well_formed_iff)
next
  case False
  then have "update_server_properties source target = Inl ValueError"
    by (intro update_server_properties_malformed) simp
  with False show ?thesis by (auto simp: well_formed_iff)
qed

theorem update_server_properties_malformed_iff_witness:
  "\<not> well_formed ''motd'' \<and>
   update_server_properties ''motd'' ''a=1'' = Inl ValueError \<and>
   \<not> well_formed ''a=1=2'' \<and>
   update_server_properties ''a=1'' ''a=1=2'' = Inl ValueError \<and>
   well_formed ''a=1'' \<and> well_formed ''b=2'' \<and>
   (\<exists>new. update_server_properties ''a=1'' ''b=2'' = Inr new)"
proof -
  have w1: "\<not> well_formed ''motd''" by code_simp
  have w2: "\<not> well_formed ''a=1=2''" by code_simp
  have w3: "well_formed ''a=1''" by code_simp
  have w4: "well_formed ''b=2''" by code_simp
  from w1 have h1: "\<exists>line \<in> set (readlines ''motd'' @ readlines ''a=1''). malformed line"
    by (auto simp: well_formed_iff)
  from w2 have h2: "\<exists>line \<in> set (readlines ''a=1'' @ readlines ''a=1=2''). malformed line"
    by (auto simp: well_formed_iff)
  from w3 w4 have h3: "\<forall>line \<in> set (readlines ''a=1'' @ readlines ''b=2''). \<not> malformed line"
    by (auto simp: well_formed_iff)
  from h1 update_server_properties_malformed_iff [of "''motd''" "''a=1''"]
  have r1: "update_server_properties ''motd'' ''a=1'' = Inl ValueError" by blast
  from h2 update_server_properties_malformed_iff [of "''a=1''" "''a=1=2''"]
  have r2: "update_server_properties ''a=1'' ''a=1=2'' = Inl ValueError" by blast
  from h3 update_server_properties_malformed_iff [of "''a=1''" "''b=2''"]
  have r3: "\<exists>new. update_server_properties ''a=1'' ''b=2'' = Inr new" by blast
  from w1 w2 w3 w4 r1 r2 r3 show ?thesis by blast
qed

text \<open>
  A target whose second line holds three blanks is well formed in the words of the
  specification, a blank line being no key line; the code takes the line for a key line
  and raises.
\<close>

theorem update_server_properties_blank_counterexample:
  "well_formed_as_worded ''a=1\<newline>'' \<and>
   well_formed_as_worded ''b=2\<newline>   \<newline>'' \<and>
   update_server_properties ''a=1\<newline>'' ''b=2\<newline>   \<newline>'' = Inl ValueError"
  by code_simp


section \<open>Properties of trimming and of lines\<close>








lemma not_space_equals: "\<not> is_space CHR ''=''"
  by (simp add: is_space_def)

lemma not_space_hash: "\<not> is_space CHR ''#''"
  by (simp add: is_space_def)
















































section \<open>Properties of the download\<close>

lemma rmtree_file: "isfile x \<Longrightarrow> rmtree x \<noteq> None"
  by (auto simp: isfile_def rmtree_def split: option.splits node.splits)

lemma extractall_keeps_archive:
  "extractall r d file_name extract_name = (e, d1) \<Longrightarrow> file_name \<noteq> extract_name \<Longrightarrow>
   map_of d1 file_name = map_of d file_name"
  by (auto simp: extractall_def update_conv' split: option.splits node.splits unpacked.splits
      prod.splits)

text \<open>A cached archive never leads to a download, whether it unpacks or not.\<close>

lemma try_cache_no_redownload:
  assumes "isfile (map_of d file_name)" "file_name \<noteq> extract_name"
  shows "fst (try_cache r d file_name extract_name) \<noteq> Redownload"
proof (cases "extractall r d file_name extract_name")
  case (Pair e d1)
  show ?thesis
  proof (cases e)
    case None
    with Pair assms show ?thesis by (simp add: try_cache_def)
  next
    case (Some err)
    from extractall_keeps_archive [OF Pair assms(2)] assms(1)
    have "isfile (map_of d1 file_name)" by simp
    then obtain e1 where "rmtree (map_of d1 file_name) = Some e1"
      using rmtree_file by blast
    with Pair Some assms show ?thesis by (simp add: try_cache_def)
  qed
qed

text \<open>
  C5. A cached archive that fails to unpack: the handler's \<open>rmtree\<close> of the archive, a
  regular file, raises, so the function returns nothing, the archive and the partial
  extraction both stay, and no download is made. Without a cached archive the same
  release is downloaded and unpacked.
\<close>

theorem corrupt_cache_is_kept:
  "download_and_extract_latest_server example_remote
     [(''bedrock-server-1.21.0.03.zip'', File ''bad'')] [1, 20] =
     (None,
      [(''bedrock-server-1.21.0.03.zip'', File ''bad''),
       (''bedrock-server-1.21.0.03'', Dir [(''bedrock_server'', File '''')])],
      0) \<and>
   download_and_extract_latest_server example_remote [] [1, 20] =
     (Some ''bedrock-server-1.21.0.03'',
      [(''bedrock-server-1.21.0.03.zip'', File ''good''),
       (''bedrock-server-1.21.0.03'', Dir [(''bedrock_server'', File ''binary'')])],
      1)"
  by code_simp


section \<open>Properties of the backup\<close>

lemma count_distinct_names:
  "distinct (map fst d) \<Longrightarrow> map_of d n = Some x \<Longrightarrow> length (filter (\<lambda>m. m = n) (map fst d)) = 1"
proof (induction d)
  case Nil
  then show ?case by simp
next
  case (Cons p d)
  obtain m y where p: "p = (m, y)" by (cases p)
  show ?case
  proof (cases "m = n")
    case True
    with Cons.prems p have "n \<notin> fst ` set d" by auto
    then have "filter (\<lambda>m. m = n) (map fst d) = []" by (auto simp: filter_empty_conv)
    with True p show ?thesis by simp
  next
    case False
    with Cons p show ?thesis by simp
  qed
qed

lemma update_new_name: "k \<notin> fst ` set al \<Longrightarrow> AList.update k v al = al @ [(k, v)]"
  by (induction al) auto

lemma backup_alt:
  "backup_local_server pack now_time server_dir server d type =
     create_archive pack server
       (remove_existed d (backup_name now_time server_dir type))
       (backup_name now_time server_dir type) type"
proof -
  have name: "(now_time @ ''-'' @ basename server_dir) @ ''.'' @ type =
      backup_name now_time server_dir type"
    by (simp add: backup_name_def)
  show ?thesis unfolding backup_local_server_def Let_def name by (rule refl)
qed

text \<open>The removal step takes the name out of the directory and touches nothing else.\<close>

lemma remove_existed_effect:
  assumes "\<not> isdir (map_of d t)"
  shows "map_of (remove_existed d t) t = None"
    and "t \<notin> fst ` set (remove_existed d t)"
    and "\<And>n. n \<noteq> t \<Longrightarrow> map_of (remove_existed d t) n = map_of d n"
    and "distinct (map fst d) \<Longrightarrow> distinct (map fst (remove_existed d t))"
proof -
  show none: "map_of (remove_existed d t) t = None"
  proof (cases "isfile (map_of d t)")
    case True
    then show ?thesis by (simp add: remove_existed_def delete_conv')
  next
    case False
    with assms have "map_of d t = None"
      by (auto simp: isfile_def isdir_def split: option.splits node.splits)
    with False show ?thesis by (simp add: remove_existed_def)
  qed
  then show "t \<notin> fst ` set (remove_existed d t)" by (simp add: map_of_eq_None_iff)
  show "\<And>n. n \<noteq> t \<Longrightarrow> map_of (remove_existed d t) n = map_of d n"
    by (simp add: remove_existed_def delete_conv')
  show "distinct (map fst d) \<Longrightarrow> distinct (map fst (remove_existed d t))"
    by (simp add: remove_existed_def distinct_delete)
qed

text \<open>One backup of a supported type into a directory where no directory has the name.\<close>

lemma backup_step:
  assumes type: "type = ''zip'' \<or> type = ''7z''"
    and nd: "\<not> isdir (map_of b (backup_name now_time server_dir type))"
    and db: "distinct (listdir b)"
  shows "backup_local_server pack now_time server_dir s b type =
           (None, remove_existed b (backup_name now_time server_dir type) @
                    [(backup_name now_time server_dir type, File (pack type s))])"
    and "map_of (remove_existed b (backup_name now_time server_dir type) @
                    [(backup_name now_time server_dir type, File (pack type s))])
           (backup_name now_time server_dir type) = Some (File (pack type s))"
    and "length (filter (\<lambda>m. m = backup_name now_time server_dir type)
           (listdir (remove_existed b (backup_name now_time server_dir type) @
                    [(backup_name now_time server_dir type, File (pack type s))]))) = 1"
    and "\<And>n. n \<noteq> backup_name now_time server_dir type \<Longrightarrow>
           map_of (remove_existed b (backup_name now_time server_dir type) @
                    [(backup_name now_time server_dir type, File (pack type s))]) n = map_of b n"
    and "distinct (listdir (remove_existed b (backup_name now_time server_dir type) @
                    [(backup_name now_time server_dir type, File (pack type s))]))"
proof -
  let ?t = "backup_name now_time server_dir type"
  let ?b1 = "remove_existed b ?t"
  let ?b' = "?b1 @ [(?t, File (pack type s))]"
  note r = remove_existed_effect [OF nd]
  have upd: "AList.update ?t (File (pack type s)) ?b1 = ?b'"
    using r(2) by (rule update_new_name)
  have "create_archive pack s ?b1 ?t type = (None, AList.update ?t (File (pack type s)) ?b1)"
    using type r(1) by (auto simp: create_archive_def)
  then show "backup_local_server pack now_time server_dir s b type = (None, ?b')"
    unfolding backup_alt upd .
  have m: "map_of (AList.update ?t (File (pack type s)) ?b1) ?t = Some (File (pack type s))"
    by (simp add: update_conv')
  then show m': "map_of ?b' ?t = Some (File (pack type s))" unfolding upd .
  have "distinct (map fst ?b1)" using db r(4) by (simp add: listdir_def)
  then have "distinct (map fst (AList.update ?t (File (pack type s)) ?b1))"
    by (rule distinct_update)
  then have d': "distinct (map fst ?b')" unfolding upd .
  then show "distinct (listdir ?b')" by (simp only: listdir_def)
  from count_distinct_names [OF d' m']
  show "length (filter (\<lambda>m. m = ?t) (listdir ?b')) = 1" by (simp only: listdir_def)
  show "\<And>n. n \<noteq> ?t \<Longrightarrow> map_of ?b' n = map_of b n"
  proof -
    fix n assume n: "n \<noteq> ?t"
    have "map_of (AList.update ?t (File (pack type s)) ?b1) n = map_of ?b1 n"
      using n by (simp add: update_conv')
    with r(3) [OF n] show "map_of ?b' n = map_of b n" unfolding upd by simp
  qed
qed


text \<open>
  C10, as amended. \<open>backup_local_server\<close> removes a regular file that has the name of
  the archive (minute, installation name and archive type) before it creates the
  archive: with a type other than \<open>zip\<close> and \<open>7z\<close> the file is gone when \<open>ValueError\<close> is
  raised; with \<open>zip\<close> or \<open>7z\<close>, and no directory of that name, the backup succeeds, the
  backup directory is the one left by the removal with the new archive as a new entry,
  it holds exactly one entry of that name, and every other entry is as it was. Run again
  in the same minute with the same type, the first archive is removed and the second
  takes its place.
\<close>

theorem backup_replaces_same_name:
  "((type = ''zip'' \<or> type = ''7z'') \<and>
    \<not> isdir (map_of d (backup_name now_time server_dir type)) \<and> distinct (listdir d) \<longrightarrow>
      (isfile (map_of d (backup_name now_time server_dir type)) \<longrightarrow>
         remove_existed d (backup_name now_time server_dir type) =
           AList.delete (backup_name now_time server_dir type) d) \<and>
      map_of (remove_existed d (backup_name now_time server_dir type))
        (backup_name now_time server_dir type) = None \<and>
      (\<exists>d1 d2.
         backup_local_server pack now_time server_dir server d type = (None, d1) \<and>
         d1 = remove_existed d (backup_name now_time server_dir type) @
                [(backup_name now_time server_dir type, File (pack type server))] \<and>
         map_of d1 (backup_name now_time server_dir type) = Some (File (pack type server)) \<and>
         length (filter (\<lambda>m. m = backup_name now_time server_dir type) (listdir d1)) = 1 \<and>
         (\<forall>n. n \<noteq> backup_name now_time server_dir type \<longrightarrow> map_of d1 n = map_of d n) \<and>
         backup_local_server pack now_time server_dir server' d1 type = (None, d2) \<and>
         d2 = AList.delete (backup_name now_time server_dir type) d1 @
                [(backup_name now_time server_dir type, File (pack type server'))] \<and>
         map_of d2 (backup_name now_time server_dir type) = Some (File (pack type server')) \<and>
         length (filter (\<lambda>m. m = backup_name now_time server_dir type) (listdir d2)) = 1 \<and>
         (\<forall>n. n \<noteq> backup_name now_time server_dir type \<longrightarrow> map_of d2 n = map_of d n))) \<and>
   (type \<noteq> ''zip'' \<and> type \<noteq> ''7z'' \<and>
    isfile (map_of d (backup_name now_time server_dir type)) \<longrightarrow>
      backup_local_server pack now_time server_dir server d type =
        (Some ValueError, AList.delete (backup_name now_time server_dir type) d))"
proof (intro conjI impI)
  let ?t = "backup_name now_time server_dir type"
  assume "isfile (map_of d ?t)"
  then show "remove_existed d ?t = AList.delete ?t d" by (simp add: remove_existed_def)
next
  let ?t = "backup_name now_time server_dir type"
  assume "(type = ''zip'' \<or> type = ''7z'') \<and> \<not> isdir (map_of d ?t) \<and> distinct (listdir d)"
  then have "\<not> isdir (map_of d ?t)" by simp
  then show "map_of (remove_existed d ?t) ?t = None" by (rule remove_existed_effect(1))
next
  let ?t = "backup_name now_time server_dir type"
  assume a: "(type = ''zip'' \<or> type = ''7z'') \<and> \<not> isdir (map_of d ?t) \<and> distinct (listdir d)"
  then have type: "type = ''zip'' \<or> type = ''7z''" and nd: "\<not> isdir (map_of d ?t)"
    and dd: "distinct (listdir d)" by simp_all
  let ?d1 = "remove_existed d ?t @ [(?t, File (pack type server))]"
  note s1 = backup_step [OF type nd dd, where pack = pack and s = server]
  from s1(2) have f1: "isfile (map_of ?d1 ?t)" by (simp only: isfile_def option.case node.case)
  then have nd1: "\<not> isdir (map_of ?d1 ?t)" using s1(2) by (simp only: isdir_def option.case node.case) simp
  note s2 = backup_step [OF type nd1 s1(5), where pack = pack and s = server']
  from f1 have rem: "remove_existed ?d1 ?t = AList.delete ?t ?d1"
    by (simp only: remove_existed_def if_True)
  let ?d2 = "AList.delete ?t ?d1 @ [(?t, File (pack type server'))]"
  have o2: "\<forall>n. n \<noteq> ?t \<longrightarrow> map_of ?d2 n = map_of d n"
  proof (intro allI impI)
    fix n assume n: "n \<noteq> ?t"
    from s2(4) [OF n] have "map_of ?d2 n = map_of ?d1 n" unfolding rem .
    with s1(4) [OF n] show "map_of ?d2 n = map_of d n" by simp
  qed
  have o1: "\<forall>n. n \<noteq> ?t \<longrightarrow> map_of ?d1 n = map_of d n" using s1(4) by blast
  show "\<exists>d1 d2.
         backup_local_server pack now_time server_dir server d type = (None, d1) \<and>
         d1 = remove_existed d ?t @ [(?t, File (pack type server))] \<and>
         map_of d1 ?t = Some (File (pack type server)) \<and>
         length (filter (\<lambda>m. m = ?t) (listdir d1)) = 1 \<and>
         (\<forall>n. n \<noteq> ?t \<longrightarrow> map_of d1 n = map_of d n) \<and>
         backup_local_server pack now_time server_dir server' d1 type = (None, d2) \<and>
         d2 = AList.delete ?t d1 @ [(?t, File (pack type server'))] \<and>
         map_of d2 ?t = Some (File (pack type server')) \<and>
         length (filter (\<lambda>m. m = ?t) (listdir d2)) = 1 \<and>
         (\<forall>n. n \<noteq> ?t \<longrightarrow> map_of d2 n = map_of d n)"
    by (intro exI [of _ ?d1] exI [of _ ?d2] conjI)
      (rule s1(1) refl s1(2) s1(3) o1 s2(1) [unfolded rem] s2(2) [unfolded rem]
        s2(3) [unfolded rem] o2)+
next
  let ?t = "backup_name now_time server_dir type"
  assume "type \<noteq> ''zip'' \<and> type \<noteq> ''7z'' \<and> isfile (map_of d ?t)"
  then show "backup_local_server pack now_time server_dir server d type =
        (Some ValueError, AList.delete ?t d)"
    unfolding backup_alt by (simp add: create_archive_def remove_existed_def)
qed


theorem backup_replaces_same_name_witness:
  "\<not> isdir (map_of example_backups (backup_name ''202401010000'' ''/srv/server'' ''zip'')) \<and>
   distinct (listdir example_backups) \<and>
   isfile (map_of example_backups (backup_name ''202401010000'' ''/srv/server'' ''zip'')) \<and>
   remove_existed example_backups (backup_name ''202401010000'' ''/srv/server'' ''zip'') =
     AList.delete (backup_name ''202401010000'' ''/srv/server'' ''zip'') example_backups \<and>
   (\<exists>d1 d2.
      backup_local_server example_pack ''202401010000'' ''/srv/server'' (Dir [])
        example_backups ''zip'' = (None, d1) \<and>
      map_of d1 (backup_name ''202401010000'' ''/srv/server'' ''zip'') =
        Some (File (example_pack ''zip'' (Dir []))) \<and>
      length (filter (\<lambda>m. m = backup_name ''202401010000'' ''/srv/server'' ''zip'') (listdir d1)) = 1 \<and>
      backup_local_server example_pack ''202401010000'' ''/srv/server'' (File ''x'') d1 ''zip'' =
        (None, d2) \<and>
      map_of d2 (backup_name ''202401010000'' ''/srv/server'' ''zip'') =
        Some (File (example_pack ''zip'' (File ''x''))) \<and>
      length (filter (\<lambda>m. m = backup_name ''202401010000'' ''/srv/server'' ''zip'') (listdir d2)) = 1) \<and>
   ''rar'' \<noteq> ''zip'' \<and> ''rar'' \<noteq> ''7z'' \<and>
   isfile (map_of example_backups (backup_name ''202401010000'' ''/srv/server'' ''rar'')) \<and>
   backup_local_server example_pack ''202401010000'' ''/srv/server'' (Dir []) example_backups ''rar'' =
     (Some ValueError,
      AList.delete (backup_name ''202401010000'' ''/srv/server'' ''rar'') example_backups)"
proof -
  let ?z = "backup_name ''202401010000'' ''/srv/server'' ''zip''"
  let ?r = "backup_name ''202401010000'' ''/srv/server'' ''rar''"
  have t: "''zip'' = ''zip'' \<or> ''zip'' = ''7z''" by simp
  have nd: "\<not> isdir (map_of example_backups ?z)" by code_simp
  have dd: "distinct (listdir example_backups)" by code_simp
  have f: "isfile (map_of example_backups ?z)" by code_simp
  have r1: "''rar'' \<noteq> ''zip''" and r2: "''rar'' \<noteq> ''7z''" by simp_all
  have fr: "isfile (map_of example_backups ?r)" by code_simp
  note inst = backup_replaces_same_name
    [where type = "''zip''" and d = example_backups and now_time = "''202401010000''"
      and server_dir = "''/srv/server''" and pack = example_pack and server = "Dir []"
      and server' = "File ''x''"]
  note first = mp [OF conjunct1 [OF inst] conjI [OF t conjI [OF nd dd]]]
  note removed = mp [OF conjunct1 [OF first] f]
  from conjunct2 [OF conjunct2 [OF first]]
  have runs: "\<exists>d1 d2.
      backup_local_server example_pack ''202401010000'' ''/srv/server'' (Dir [])
        example_backups ''zip'' = (None, d1) \<and>
      map_of d1 ?z = Some (File (example_pack ''zip'' (Dir []))) \<and>
      length (filter (\<lambda>m. m = ?z) (listdir d1)) = 1 \<and>
      backup_local_server example_pack ''202401010000'' ''/srv/server'' (File ''x'') d1 ''zip'' =
        (None, d2) \<and>
      map_of d2 ?z = Some (File (example_pack ''zip'' (File ''x''))) \<and>
      length (filter (\<lambda>m. m = ?z) (listdir d2)) = 1"
    by blast
  note instr = backup_replaces_same_name
    [where type = "''rar''" and d = example_backups and now_time = "''202401010000''"
      and server_dir = "''/srv/server''" and pack = example_pack and server = "Dir []"]
  note other = mp [OF conjunct2 [OF instr] conjI [OF r1 conjI [OF r2 fr]]]
  show ?thesis
    by (intro conjI) (rule nd dd f removed runs r1 r2 fr other)+
qed

text \<open>
  The archive type is part of the name: a \<open>7z\<close> backup of the same minute and
  installation stays beside the new \<open>zip\<close> backup.
\<close>

theorem backup_two_types_counterexample:
  "backup_local_server (\<lambda>t n. ''new'') ''202401010000'' ''/srv/server'' (Dir [])
     [(''202401010000-server.7z'', File ''old'')] ''zip'' =
     (None, [(''202401010000-server.7z'', File ''old''),
             (''202401010000-server.zip'', File ''new'')]) \<and>
   length (filter (prefix ''202401010000-server.'')
     (listdir [(''202401010000-server.7z'', File ''old''),
               (''202401010000-server.zip'', File ''new'')])) = 2"
  by code_simp


section \<open>Properties of the file system operations\<close>



















lemma temp_not_final: "''server.properties'' \<noteq> ''server.properties.temp''"
  by simp



section \<open>Properties of the merge\<close>



















section \<open>Reconciling twice\<close>









section \<open>Protected paths\<close>






section \<open>Properties of the sort\<close>

text \<open>
  Where the comparison is the strict order of a linear order on the elements of the
  list, the sort returns the list in non-descending order.
\<close>

lemma ascending_run_sorted:
  "ascending_run lt prev xs = (run, rest) \<Longrightarrow> prev \<in> A \<Longrightarrow> set xs \<subseteq> A \<Longrightarrow>
   (\<And>a b. a \<in> A \<Longrightarrow> b \<in> A \<Longrightarrow> lt a b = (a < b)) \<Longrightarrow>
   run @ rest = xs \<and> sorted (prev # run)"
  for prev :: "'a::linorder"
proof (induction xs arbitrary: prev run rest)
  case Nil
  then show ?case by simp
next
  case (Cons x xs)
  from Cons.prems have xA: "x \<in> A" and sub: "set xs \<subseteq> A" by simp_all
  show ?case
  proof (cases "lt x prev")
    case True
    with Cons.prems(1) show ?thesis by simp
  next
    case False
    obtain run' rest' where r: "ascending_run lt x xs = (run', rest')"
      by (cases "ascending_run lt x xs")
    from Cons.prems(1) False r have eq: "run = x # run'" "rest = rest'" by simp_all
    from Cons.IH [OF r xA sub Cons.prems(4)]
    have ih: "run' @ rest' = xs" "sorted (x # run')" by simp_all
    from False Cons.prems(4) [OF xA Cons.prems(2)] have "prev \<le> x" by simp
    with ih eq show ?thesis by auto
  qed
qed

lemma descending_run_sorted:
  "descending_run lt prev xs = (run, rest) \<Longrightarrow> prev \<in> A \<Longrightarrow> set xs \<subseteq> A \<Longrightarrow>
   (\<And>a b. a \<in> A \<Longrightarrow> b \<in> A \<Longrightarrow> lt a b = (a < b)) \<Longrightarrow>
   run @ rest = xs \<and> sorted (rev (prev # run))"
  for prev :: "'a::linorder"
proof (induction xs arbitrary: prev run rest)
  case Nil
  then show ?case by simp
next
  case (Cons x xs)
  from Cons.prems have xA: "x \<in> A" and sub: "set xs \<subseteq> A" by simp_all
  show ?case
  proof (cases "lt x prev")
    case False
    with Cons.prems(1) show ?thesis by simp
  next
    case True
    obtain run' rest' where r: "descending_run lt x xs = (run', rest')"
      by (cases "descending_run lt x xs")
    from Cons.prems(1) True r have eq: "run = x # run'" "rest = rest'" by simp_all
    from Cons.IH [OF r xA sub Cons.prems(4)]
    have ih: "run' @ rest' = xs" "sorted (rev (x # run'))" by simp_all
    from True Cons.prems(4) [OF xA Cons.prems(2)] have lt: "x < prev" by simp
    from ih(2) have "\<forall>y \<in> set (x # run'). y \<le> x"
      by (auto simp: sorted_append)
    with lt have "\<forall>y \<in> set (x # run'). y \<le> prev" by auto
    with ih(2) have "sorted (rev (x # run') @ [prev])"
      unfolding sorted_append by simp
    with ih(1) eq show ?thesis by simp
  qed
qed

lemma count_run_sorted:
  fixes xs :: "'a::linorder list"
  assumes c: "count_run lt xs = (run, rest)" and sub: "set xs \<subseteq> A"
    and lt: "\<And>a b. a \<in> A \<Longrightarrow> b \<in> A \<Longrightarrow> lt a b = (a < b)"
  shows "mset run + mset rest = mset xs \<and> sorted run"
proof (cases xs)
  case Nil
  with c show ?thesis by (simp add: count_run_def)
next
  case (Cons x ys)
  from sub Cons have xA: "x \<in> A" and ysA: "set ys \<subseteq> A" by simp_all
  show ?thesis
  proof (cases "case ys of [] \<Rightarrow> False | y # _ \<Rightarrow> lt y x")
    case True
    obtain run' rest' where r: "descending_run lt x ys = (run', rest')"
      by (cases "descending_run lt x ys")
    from c Cons True r have eq: "run = rev (x # run')" "rest = rest'"
      by (simp_all add: count_run_def)
    from descending_run_sorted [OF r xA ysA lt]
    have "run' @ rest' = ys" "sorted (rev (x # run'))" by simp_all
    then have "mset run' + mset rest' = mset ys" "sorted (rev (x # run'))"
      by (simp_all add: mset_append [symmetric] del: mset_append)
    with eq Cons show ?thesis by simp
  next
    case False
    obtain run' rest' where r: "ascending_run lt x ys = (run', rest')"
      by (cases "ascending_run lt x ys")
    from c Cons False r have eq: "run = x # run'" "rest = rest'"
      by (simp_all add: count_run_def)
    from ascending_run_sorted [OF r xA ysA lt]
    have "run' @ rest' = ys" "sorted (x # run')" by simp_all
    then have "mset run' + mset rest' = mset ys" "sorted (x # run')"
      by (simp_all add: mset_append [symmetric] del: mset_append)
    with eq Cons show ?thesis by simp
  qed
qed


lemma bisect_sorted:
  fixes xs :: "'a::linorder list"
  shows "(\<And>a b. a \<in> A \<Longrightarrow> b \<in> A \<Longrightarrow> lt a b = (a < b)) \<Longrightarrow> pivot \<in> A \<Longrightarrow>
         set xs \<subseteq> A \<Longrightarrow> sorted xs \<Longrightarrow>
         l \<le> r \<Longrightarrow> r \<le> length xs \<Longrightarrow> (\<forall>i<l. xs ! i \<le> pivot) \<Longrightarrow>
         (\<forall>i. r \<le> i \<and> i < length xs \<longrightarrow> pivot < xs ! i) \<Longrightarrow>
         bisect lt pivot xs l r \<le> length xs \<and>
         (\<forall>i < bisect lt pivot xs l r. xs ! i \<le> pivot) \<and>
         (\<forall>i. bisect lt pivot xs l r \<le> i \<and> i < length xs \<longrightarrow> pivot < xs ! i)"
proof (induction lt pivot xs l r rule: bisect.induct)
  case (1 lt pivot xs l r)
  note lt = 1(3) and pA = 1(4) and sub = 1(5) and srt = 1(6) and lr = 1(7) and rlen = 1(8)
    and low = 1(9) and up = 1(10)
  note bisect.simps [simp del]
  show ?case
  proof (cases "l < r")
    case False
    with lr have "l = r" by simp
    moreover have "bisect lt pivot xs l r = l" using False by (subst bisect.simps) simp
    ultimately show ?thesis using rlen low up by simp
  next
    case True
    define p where "p = l + (r - l) div 2"
    have p: "l \<le> p" "p < r" using True by (simp_all add: p_def)
    with rlen have plen: "p < length xs" by simp
    have pin: "xs ! p \<in> A" using plen sub by (auto simp: subset_iff)
    show ?thesis
    proof (cases "lt pivot (xs ! p)")
      case lp: True
      have eq: "bisect lt pivot xs l r = bisect lt pivot xs l p"
        using True lp by (subst bisect.simps) (simp add: p_def Let_def)
      from lp lt [OF pA pin] have less: "pivot < xs ! p" by simp
      have up': "\<forall>i. p \<le> i \<and> i < length xs \<longrightarrow> pivot < xs ! i"
      proof (intro allI impI)
        fix i assume i: "p \<le> i \<and> i < length xs"
        with srt have "xs ! p \<le> xs ! i" by (simp add: sorted_nth_mono)
        with less show "pivot < xs ! i" by simp
      qed
      from plen have ple: "p \<le> length xs" by simp
      from 1(1) [OF True p_def lp lt pA sub srt p(1) ple low up']
      show ?thesis unfolding eq .
    next
      case lp: False
      have eq: "bisect lt pivot xs l r = bisect lt pivot xs (p + 1) r"
        using True lp by (subst bisect.simps) (simp add: p_def Let_def)
      from lp lt [OF pA pin] have le: "xs ! p \<le> pivot" by simp
      have low': "\<forall>i < p + 1. xs ! i \<le> pivot"
      proof (intro allI impI)
        fix i assume i: "i < p + 1"
        then have "i \<le> p" by simp
        with srt plen have "xs ! i \<le> xs ! p" by (simp add: sorted_nth_mono)
        with le show "xs ! i \<le> pivot" by simp
      qed
      from p have pr: "p + 1 \<le> r" by simp
      from 1(2) [OF True p_def lp lt pA sub srt pr rlen low' up]
      show ?thesis unfolding eq .
    qed
  qed
qed


lemma binary_insert_sorted:
  fixes xs :: "'a::linorder list"
  assumes lt: "\<And>a b. a \<in> A \<Longrightarrow> b \<in> A \<Longrightarrow> lt a b = (a < b)"
    and pA: "pivot \<in> A" and sub: "set xs \<subseteq> A" and srt: "sorted xs"
  shows "sorted (binary_insert lt xs pivot)"
    and "mset (binary_insert lt xs pivot) = add_mset pivot (mset xs)"
proof -
  define p where "p = bisect lt pivot xs 0 (length xs)"
  have "p \<le> length xs \<and> (\<forall>i < p. xs ! i \<le> pivot) \<and>
        (\<forall>i. p \<le> i \<and> i < length xs \<longrightarrow> pivot < xs ! i)"
  proof -
    have up0: "\<forall>i. length xs \<le> i \<and> i < length xs \<longrightarrow> pivot < xs ! i"
    proof (intro allI impI)
      fix i assume "length xs \<le> i \<and> i < length xs"
      then have "length xs \<le> i" "i < length xs" by blast+
      then have False by simp
      then show "pivot < xs ! i" ..
    qed
    have low0: "\<forall>i<0. xs ! i \<le> pivot" by simp
    show ?thesis
      unfolding p_def by (rule bisect_sorted [OF lt pA sub srt le0 order_refl low0 up0])
  qed
  then have ple: "p \<le> length xs" and low: "\<forall>i < p. xs ! i \<le> pivot"
    and up: "\<forall>i. p \<le> i \<and> i < length xs \<longrightarrow> pivot < xs ! i" by simp_all
  have eq: "binary_insert lt xs pivot = take p xs @ pivot # drop p xs"
    unfolding binary_insert_def p_def Let_def ..
  have a: "\<forall>x \<in> set (take p xs). x \<le> pivot"
  proof
    fix x assume "x \<in> set (take p xs)"
    then obtain i where "i < length (take p xs)" "take p xs ! i = x"
      by (auto simp: in_set_conv_nth)
    with low show "x \<le> pivot" by auto
  qed
  have b: "\<forall>x \<in> set (drop p xs). pivot \<le> x"
  proof
    fix x assume "x \<in> set (drop p xs)"
    then obtain i where i: "i < length (drop p xs)" "drop p xs ! i = x"
      by (auto simp: in_set_conv_nth)
    then have "p + i < length xs" "xs ! (p + i) = x" using ple by simp_all
    with up have "pivot < x" by auto
    then show "pivot \<le> x" by simp
  qed
  have "sorted (take p xs @ drop p xs)" using srt by simp
  then have s1: "sorted (take p xs)" and s2: "sorted (drop p xs)"
    and c: "\<forall>x \<in> set (take p xs). \<forall>y \<in> set (drop p xs). x \<le> y"
    unfolding sorted_append by blast+
  from b s2 have s3: "sorted (pivot # drop p xs)" by simp
  have d: "\<forall>x \<in> set (take p xs). \<forall>y \<in> set (pivot # drop p xs). x \<le> y"
  proof (intro ballI)
    fix x y assume x: "x \<in> set (take p xs)" and y: "y \<in> set (pivot # drop p xs)"
    from y have "y = pivot \<or> y \<in> set (drop p xs)" by simp
    then show "x \<le> y"
    proof
      assume "y = pivot"
      with a x show ?thesis by blast
    next
      assume "y \<in> set (drop p xs)"
      with c x show ?thesis by blast
    qed
  qed
  show "sorted (binary_insert lt xs pivot)"
    unfolding eq sorted_append by (intro conjI) (rule s1 s3 d)+
  have m: "mset (take p xs) + mset (drop p xs) = mset xs"
    by (rule mset_append [of "take p xs" "drop p xs", symmetric, unfolded append_take_drop_id])
  show "mset (binary_insert lt xs pivot) = add_mset pivot (mset xs)"
    unfolding eq by (simp add: m)
qed

lemma foldl_binary_insert_sorted:
  fixes run :: "'a::linorder list"
  shows "(\<And>a b. a \<in> A \<Longrightarrow> b \<in> A \<Longrightarrow> lt a b = (a < b)) \<Longrightarrow> set run \<subseteq> A \<Longrightarrow>
         set rest \<subseteq> A \<Longrightarrow> sorted run \<Longrightarrow>
         sorted (foldl (binary_insert lt) run rest) \<and>
         mset (foldl (binary_insert lt) run rest) = mset run + mset rest"
proof (induction rest arbitrary: run)
  case Nil
  then show ?case by simp
next
  case (Cons x rest)
  from Cons.prems have xA: "x \<in> A" and restA: "set rest \<subseteq> A" by simp_all
  note b = binary_insert_sorted [OF Cons.prems(1) xA Cons.prems(2) Cons.prems(4)]
  from b(2) have "mset (binary_insert lt run x) = mset (x # run)" by simp
  then have "set (binary_insert lt run x) = set (x # run)" by (rule mset_eq_setD)
  then have sub: "set (binary_insert lt run x) \<subseteq> A" using xA Cons.prems(2) by simp
  from Cons.IH [OF Cons.prems(1) sub restA b(1)] b(2)
  show ?case by simp
qed

text \<open>The sort of a list on whose elements the comparison is a linear order.\<close>

lemma py_sorted_sort:
  fixes xs :: "'a::linorder list"
  assumes lt: "\<And>a b. a \<in> set xs \<Longrightarrow> b \<in> set xs \<Longrightarrow> lt a b = (a < b)"
  shows "py_sorted lt xs = sort xs"
proof -
  obtain run rest where c: "count_run lt xs = (run, rest)" by (cases "count_run lt xs")
  from count_run_sorted [OF c subset_refl lt]
  have m: "mset run + mset rest = mset xs" and s: "sorted run" by simp_all
  from m have "set_mset (mset run + mset rest) = set xs" by simp
  then have sub: "set run \<subseteq> set xs" "set rest \<subseteq> set xs" by auto
  from foldl_binary_insert_sorted [OF lt sub s] m
  have fs: "sorted (foldl (binary_insert lt) run rest)"
    and fm: "mset (foldl (binary_insert lt) run rest) = mset xs" by simp_all
  have "sort xs = foldl (binary_insert lt) run rest"
    by (rule properties_for_sort [OF fm fs])
  then show ?thesis by (simp add: py_sorted_def c)
qed


section \<open>Properties of the retention\<close>

text \<open>
  On version vectors of one length \<open>compare_version\<close> is the lexicographic order, which
  is linear.
\<close>

lemma compare_version_less:
  "length a = length b \<Longrightarrow> (compare_version a b < 0) = (a < b)"
  by (induction a b rule: list_induct2) auto

lemma compare_version_equal:
  "length a = length b \<Longrightarrow> (compare_version a b = 0) = (a = b)"
  by (induction a b rule: list_induct2) auto

lemma compare_version_refl: "compare_version a a = 0"
  by (induction a) auto

lemma py_sorted_versions:
  assumes "\<forall>v \<in> set vs. length v = k"
  shows "py_sorted (cmp_lt compare_version) vs = sort vs"
proof (rule py_sorted_sort)
  fix a b assume "a \<in> set vs" "b \<in> set vs"
  with assms have "length a = length b" by simp
  then show "cmp_lt compare_version a b = (a < b)"
    unfolding cmp_lt_def by (rule compare_version_less)
qed

text \<open>The deletion loop removes the regular files the test selects, and nothing else.\<close>

lemma map_of_delete_other: "n \<noteq> f \<Longrightarrow> map_of (AList.delete f d) n = map_of d n"
  by (simp add: delete_conv')

lemma delete_filter: "AList.delete f d = filter (\<lambda>(n, x). n \<noteq> f) d"
  by (induction d) auto

lemma delete_files_filter:
  "delete_files del names d =
     filter (\<lambda>(n, x). \<not> (n \<in> set names \<and> isfile (map_of d n) \<and> del n)) d"
proof (induction names arbitrary: d)
  case Nil
  show ?case by simp
next
  case (Cons f rest)
  show ?case
  proof (cases "isfile (map_of d f) \<and> del f")
    case True
    let ?d1 = "AList.delete f d"
    have "delete_files del (f # rest) d = delete_files del rest ?d1" using True by simp
    also have "\<dots> = filter (\<lambda>(n, x). \<not> (n \<in> set rest \<and> isfile (map_of ?d1 n) \<and> del n)) ?d1"
      by (rule Cons.IH)
    also have "\<dots> = filter (\<lambda>(n, x). \<not> (n \<in> set rest \<and> isfile (map_of ?d1 n) \<and> del n))
        (filter (\<lambda>(n, x). n \<noteq> f) d)"
      by (simp only: delete_filter)
    also have "\<dots> = filter (\<lambda>(n, x). \<not> (n \<in> set (f # rest) \<and> isfile (map_of d n) \<and> del n)) d"
      unfolding filter_filter
    proof (rule filter_cong [OF refl])
      fix e assume "e \<in> set d"
      obtain n x where e: "e = (n, x)" by (cases e)
      show "((case e of (n, x) \<Rightarrow> n \<noteq> f) \<and>
             (case e of (n, x) \<Rightarrow> \<not> (n \<in> set rest \<and> isfile (map_of ?d1 n) \<and> del n))) =
            (case e of (n, x) \<Rightarrow> \<not> (n \<in> set (f # rest) \<and> isfile (map_of d n) \<and> del n))"
      proof (cases "n = f")
        case True
        with \<open>isfile (map_of d f) \<and> del f\<close> show ?thesis unfolding e by simp
      next
        case False
        then have "map_of ?d1 n = map_of d n" by (rule map_of_delete_other)
        with False show ?thesis unfolding e by simp
      qed
    qed
    finally show ?thesis .
  next
    case False
    have "delete_files del (f # rest) d = delete_files del rest d" using False by auto
    also have "\<dots> = filter (\<lambda>(n, x). \<not> (n \<in> set rest \<and> isfile (map_of d n) \<and> del n)) d"
      by (rule Cons.IH)
    also have "\<dots> = filter (\<lambda>(n, x). \<not> (n \<in> set (f # rest) \<and> isfile (map_of d n) \<and> del n)) d"
    proof (rule filter_cong [OF refl])
      fix e assume "e \<in> set d"
      obtain n x where e: "e = (n, x)" by (cases e)
      show "(case e of (n, x) \<Rightarrow> \<not> (n \<in> set rest \<and> isfile (map_of d n) \<and> del n)) =
            (case e of (n, x) \<Rightarrow> \<not> (n \<in> set (f # rest) \<and> isfile (map_of d n) \<and> del n))"
        using False unfolding e by auto
    qed
    finally show ?thesis .
  qed
qed

text \<open>Keeping the entries whose names pass a test keeps the files whose names pass it.\<close>

lemma map_of_filter_names:
  "map_of (filter (\<lambda>(n, x). P n) d) m = (if P m then map_of d m else None)"
  by (induction d) auto

lemma file_names_filter:
  "file_names (filter (\<lambda>(n, x). P n) d) = filter P (file_names d)"
proof -
  have "map fst (filter (\<lambda>(n, x). P n) d) = filter P (map fst d)"
    by (induction d) auto
  then have "file_names (filter (\<lambda>(n, x). P n) d) =
      filter (\<lambda>n. isfile (map_of (filter (\<lambda>(n, x). P n) d) n)) (filter P (map fst d))"
    by (simp add: file_names_def listdir_def)
  also have "\<dots> = filter (\<lambda>n. P n \<and> isfile (map_of d n)) (map fst d)"
    unfolding filter_filter
    by (rule filter_cong [OF refl]) (auto simp: map_of_filter_names)
  also have "\<dots> = filter P (filter (\<lambda>n. isfile (map_of d n)) (map fst d))"
    unfolding filter_filter by (rule filter_cong [OF refl]) auto
  finally show ?thesis by (simp add: file_names_def listdir_def)
qed


text \<open>Whatever the comparison, the sort returns the elements it was given.\<close>

lemma ascending_run_append: "ascending_run lt prev xs = (run, rest) \<Longrightarrow> run @ rest = xs"
proof (induction xs arbitrary: prev run rest)
  case Nil
  then show ?case by simp
next
  case (Cons x xs)
  show ?case
  proof (cases "lt x prev")
    case True
    with Cons.prems show ?thesis by simp
  next
    case False
    obtain run' rest' where r: "ascending_run lt x xs = (run', rest')"
      by (cases "ascending_run lt x xs")
    from Cons.prems False r have eq: "run = x # run'" "rest = rest'" by simp_all
    from Cons.IH [OF r] eq show ?thesis by simp
  qed
qed

lemma descending_run_append: "descending_run lt prev xs = (run, rest) \<Longrightarrow> run @ rest = xs"
proof (induction xs arbitrary: prev run rest)
  case Nil
  then show ?case by simp
next
  case (Cons x xs)
  show ?case
  proof (cases "lt x prev")
    case False
    with Cons.prems show ?thesis by simp
  next
    case True
    obtain run' rest' where r: "descending_run lt x xs = (run', rest')"
      by (cases "descending_run lt x xs")
    from Cons.prems True r have eq: "run = x # run'" "rest = rest'" by simp_all
    from Cons.IH [OF r] eq show ?thesis by simp
  qed
qed

lemma count_run_mset: "count_run lt xs = (run, rest) \<Longrightarrow> mset run + mset rest = mset xs"
proof (cases xs)
  case Nil
  assume "count_run lt xs = (run, rest)"
  with Nil show ?thesis by (simp add: count_run_def)
next
  case (Cons x ys)
  assume c: "count_run lt xs = (run, rest)"
  show ?thesis
  proof (cases "case ys of [] \<Rightarrow> False | y # _ \<Rightarrow> lt y x")
    case True
    obtain run' rest' where r: "descending_run lt x ys = (run', rest')"
      by (cases "descending_run lt x ys")
    from c Cons True r have eq: "run = rev (x # run')" "rest = rest'"
      by (simp_all add: count_run_def)
    from descending_run_append [OF r] have "mset run' + mset rest' = mset ys"
      by (simp add: mset_append [symmetric] del: mset_append)
    with eq Cons show ?thesis by simp
  next
    case False
    obtain run' rest' where r: "ascending_run lt x ys = (run', rest')"
      by (cases "ascending_run lt x ys")
    from c Cons False r have eq: "run = x # run'" "rest = rest'"
      by (simp_all add: count_run_def)
    from ascending_run_append [OF r] have "mset run' + mset rest' = mset ys"
      by (simp add: mset_append [symmetric] del: mset_append)
    with eq Cons show ?thesis by simp
  qed
qed

lemma binary_insert_mset: "mset (binary_insert lt xs pivot) = add_mset pivot (mset xs)"
proof -
  define p where "p = bisect lt pivot xs 0 (length xs)"
  have eq: "binary_insert lt xs pivot = take p xs @ pivot # drop p xs"
    unfolding binary_insert_def p_def Let_def ..
  have m: "mset (take p xs) + mset (drop p xs) = mset xs"
    by (rule mset_append [of "take p xs" "drop p xs", symmetric, unfolded append_take_drop_id])
  show ?thesis unfolding eq by (simp add: m)
qed

lemma foldl_binary_insert_mset:
  "mset (foldl (binary_insert lt) run rest) = mset run + mset rest"
proof (induction rest arbitrary: run)
  case Nil
  show ?case by simp
next
  case (Cons x rest)
  show ?case using Cons.IH [of "binary_insert lt run x"] by (simp add: binary_insert_mset)
qed

lemma py_sorted_mset: "mset (py_sorted lt xs) = mset xs"
proof -
  obtain run rest where c: "count_run lt xs = (run, rest)" by (cases "count_run lt xs")
  from count_run_mset [OF c] foldl_binary_insert_mset [of lt run rest]
  show ?thesis by (simp add: py_sorted_def c)
qed

lemma py_sorted_length: "length (py_sorted lt xs) = length xs"
  using py_sorted_mset [of lt xs] by (rule mset_eq_length)

text \<open>
  The pruning of the cache in closed form: when there are more files than are to be
  kept, the files the test selects are removed, and every other entry stays in place.
\<close>

lemma delete_download_cache_files_filter:
  "delete_download_cache_files d N =
     (if 0 \<le> N \<and> N < int (length (file_names d))
      then filter (\<lambda>(n, x). \<not> (isfile (map_of d n) \<and>
             should_delete (py_sorted (cmp_lt compare_version) (cached_versions d)) N n)) d
      else d)"
proof (cases "0 \<le> N \<and> N < int (length (file_names d))")
  case False
  then show ?thesis
    by (auto simp: delete_download_cache_files_def Let_def py_sorted_length)
next
  case True
  let ?all = "py_sorted (cmp_lt compare_version) (cached_versions d)"
  have "delete_download_cache_files d N =
      delete_files (should_delete ?all N) (sort (listdir d)) d"
    using True
    by (simp add: delete_download_cache_files_def Let_def py_sorted_length cached_versions_def)
  also have "\<dots> = filter (\<lambda>(n, x). \<not> (n \<in> set (sort (listdir d)) \<and> isfile (map_of d n) \<and>
      should_delete ?all N n)) d"
    by (rule delete_files_filter)
  also have "\<dots> = filter (\<lambda>(n, x). \<not> (isfile (map_of d n) \<and> should_delete ?all N n)) d"
  proof (rule filter_cong [OF refl])
    fix e assume e: "e \<in> set d"
    obtain n x where nx: "e = (n, x)" by (cases e)
    with e have "n \<in> set (sort (listdir d))" by (force simp: listdir_def)
    then show "(case e of (n, x) \<Rightarrow> \<not> (n \<in> set (sort (listdir d)) \<and> isfile (map_of d n) \<and>
          should_delete ?all N n)) =
        (case e of (n, x) \<Rightarrow> \<not> (isfile (map_of d n) \<and> should_delete ?all N n))"
      unfolding nx by simp
  qed
  finally show ?thesis using True by simp
qed


lemma file_names_isfile: "n \<in> set (file_names d) \<Longrightarrow> isfile (map_of d n)"
  by (simp add: file_names_def)

lemma file_names_member:
  "(n, x) \<in> set d \<Longrightarrow> isfile (map_of d n) \<Longrightarrow> n \<in> set (file_names d)"
  by (force simp: file_names_def listdir_def)

text \<open>The files that survive the pruning of the cache.\<close>

lemma cache_survivors:
  assumes "0 \<le> N" "N < int (length (file_names d))"
  shows "file_names (delete_download_cache_files d N) =
           filter (\<lambda>n. \<not> should_delete (py_sorted (cmp_lt compare_version) (cached_versions d)) N n)
             (file_names d)"
proof -
  let ?sd = "should_delete (py_sorted (cmp_lt compare_version) (cached_versions d)) N"
  have "delete_download_cache_files d N =
      filter (\<lambda>(n, x). \<not> (isfile (map_of d n) \<and> ?sd n)) d"
    using assms by (simp add: delete_download_cache_files_filter)
  then have "file_names (delete_download_cache_files d N) =
      filter (\<lambda>n. \<not> (isfile (map_of d n) \<and> ?sd n)) (file_names d)"
    by (simp only: file_names_filter)
  also have "\<dots> = filter (\<lambda>n. \<not> ?sd n) (file_names d)"
    by (rule filter_cong [OF refl]) (simp add: file_names_isfile)
  finally show ?thesis .
qed

text \<open>The versions kept are versions of files, each of which survives.\<close>

lemma drop_mset_subset: "mset (drop n xs) \<subseteq># mset xs"
proof -
  have "mset (take n xs) + mset (drop n xs) = mset xs"
    by (rule mset_append [of "take n xs" "drop n xs", symmetric, unfolded append_take_drop_id])
  then show ?thesis by (metis mset_subset_eq_add_right)
qed

lemma cache_survivors_at_least:
  assumes N: "0 \<le> N" "N < int (length (file_names d))"
  shows "nat N \<le> length (file_names (delete_download_cache_files d N))"
proof (cases "N = 0")
  case True
  then show ?thesis by simp
next
  case False
  with N have pos: "0 < N" by simp
  let ?vs = "cached_versions d"
  let ?all = "py_sorted (cmp_lt compare_version) ?vs"
  let ?keep = "keep_versions ?all N"
  let ?Q = "\<lambda>v. \<exists>k \<in> set ?keep. compare_version k v = 0"
  have sd: "(\<not> should_delete ?all N n) = ?Q (extract_version n)" for n
    using pos by (simp add: should_delete_def Let_def list_ex_iff)
  have "file_names (delete_download_cache_files d N) =
      filter (\<lambda>n. ?Q (extract_version n)) (file_names d)"
    unfolding cache_survivors [OF N] sd ..
  then have "length (file_names (delete_download_cache_files d N)) =
      length (map extract_version (filter (\<lambda>n. ?Q (extract_version n)) (file_names d)))"
    by simp
  also have "map extract_version (filter (\<lambda>n. ?Q (extract_version n)) (file_names d)) =
      filter ?Q ?vs"
    unfolding cached_versions_def filter_map comp_def ..
  also have "length (filter ?Q ?vs) = size (filter_mset ?Q (mset ?vs))"
    by (simp only: mset_filter [symmetric] size_mset)
  finally have len: "length (file_names (delete_download_cache_files d N)) =
      size (filter_mset ?Q (mset ?vs))" .
  have "mset ?keep \<subseteq># mset ?all" unfolding keep_versions_def by (rule drop_mset_subset)
  then have sub: "mset ?keep \<subseteq># mset ?vs" by (simp only: py_sorted_mset)
  have "\<forall>v \<in> set ?keep. ?Q v"
  proof
    fix v assume "v \<in> set ?keep"
    with compare_version_refl [of v] show "?Q v" by blast
  qed
  then have "filter ?Q ?keep = ?keep" by (rule filter_True)
  then have "mset (filter ?Q ?keep) = mset ?keep" by (rule arg_cong)
  then have "filter_mset ?Q (mset ?keep) = mset ?keep" by (simp only: mset_filter)
  moreover have "filter_mset ?Q (mset ?keep) \<subseteq># filter_mset ?Q (mset ?vs)"
    using sub by (rule multiset_filter_mono)
  ultimately have "mset ?keep \<subseteq># filter_mset ?Q (mset ?vs)" by simp
  then have "size (mset ?keep) \<le> size (filter_mset ?Q (mset ?vs))" by (rule size_mset_mono)
  moreover have "length ?keep = nat N"
    using N by (simp add: keep_versions_def py_sorted_length cached_versions_def)
  ultimately show ?thesis unfolding len by simp
qed


text \<open>
  With version vectors of one length, the files that survive are those whose version
  is among the last of the sorted versions, and these are the greatest.
\<close>

lemma uniform_should_delete:
  assumes N: "0 \<le> N" "N < int (length (file_names d))" and u: "uniform_versions d k"
    and n: "n \<in> set (file_names d)"
  shows "(\<not> should_delete (py_sorted (cmp_lt compare_version) (cached_versions d)) N n) =
         (extract_version n \<in>
            set (drop (length (file_names d) - nat N) (sort (cached_versions d))))"
proof -
  let ?vs = "cached_versions d"
  let ?all = "py_sorted (cmp_lt compare_version) ?vs"
  let ?keep = "drop (length (file_names d) - nat N) (sort ?vs)"
  from u have len: "\<forall>v \<in> set ?vs. length v = k"
    by (simp add: uniform_versions_def list_all_iff)
  then have all: "?all = sort ?vs" by (rule py_sorted_versions)
  have keep: "keep_versions ?all N = ?keep"
    unfolding all keep_versions_def by (simp add: cached_versions_def)
  have sub: "set ?keep \<subseteq> set ?vs" using set_drop_subset [of _ "sort ?vs"] by simp
  from n have vn: "extract_version n \<in> set ?vs" by (simp add: cached_versions_def)
  show "(\<not> should_delete ?all N n) = (extract_version n \<in> set ?keep)"
  proof
    assume "\<not> should_delete ?all N n"
    then obtain v where v: "v \<in> set ?keep" "compare_version v (extract_version n) = 0"
      unfolding should_delete_def Let_def keep list_ex_iff by blast
    from v(1) sub len vn have "length v = length (extract_version n)" by auto
    from compare_version_equal [OF this] v(2) have "v = extract_version n" by simp
    with v(1) show "extract_version n \<in> set ?keep" by simp
  next
    assume a: "extract_version n \<in> set ?keep"
    have "0 < N"
    proof (rule ccontr)
      assume "\<not> 0 < N"
      with N have "N = 0" by simp
      then have "?keep = []" by (simp add: cached_versions_def)
      with a show False by simp
    qed
    moreover from a compare_version_refl [of "extract_version n"]
    have "\<exists>v \<in> set ?keep. compare_version v (extract_version n) = 0" by blast
    ultimately show "\<not> should_delete ?all N n"
      unfolding should_delete_def Let_def keep list_ex_iff by simp
  qed
qed

lemma uniform_survivors:
  assumes N: "0 \<le> N" "N < int (length (file_names d))" and u: "uniform_versions d k"
  shows "file_names (delete_download_cache_files d N) =
           filter (\<lambda>n. extract_version n \<in>
                     set (drop (length (file_names d) - nat N) (sort (cached_versions d))))
             (file_names d)"
  unfolding cache_survivors [OF N]
  by (rule filter_cong [OF refl]) (rule uniform_should_delete [OF N u])

lemma uniform_survivors_greatest:
  assumes N: "0 \<le> N" "N < int (length (file_names d))" and u: "uniform_versions d k"
    and n: "n \<in> set (file_names (delete_download_cache_files d N))"
    and m: "m \<in> set (file_names d)" "m \<notin> set (file_names (delete_download_cache_files d N))"
  shows "extract_version m < extract_version n"
proof -
  let ?vs = "cached_versions d"
  let ?j = "length (file_names d) - nat N"
  let ?keep = "drop ?j (sort ?vs)"
  note s = uniform_survivors [OF N u]
  from n have kn: "extract_version n \<in> set ?keep" unfolding s by simp
  from m have km: "extract_version m \<notin> set ?keep" unfolding s by simp
  from m(1) have "extract_version m \<in> set (sort ?vs)" by (simp add: cached_versions_def)
  then have "extract_version m \<in> set (take ?j (sort ?vs) @ drop ?j (sort ?vs))"
    by (simp only: append_take_drop_id)
  then have "extract_version m \<in> set (take ?j (sort ?vs)) \<union> set ?keep"
    by (simp only: set_append)
  with km have tm: "extract_version m \<in> set (take ?j (sort ?vs))" by blast
  have "sorted (take ?j (sort ?vs) @ drop ?j (sort ?vs))"
    by (simp only: append_take_drop_id sorted_sort)
  then have "\<forall>x \<in> set (take ?j (sort ?vs)). \<forall>y \<in> set ?keep. x \<le> y"
    unfolding sorted_append by blast
  with tm kn have "extract_version m \<le> extract_version n" by blast
  moreover from kn km have "extract_version m \<noteq> extract_version n" by auto
  ultimately show ?thesis by simp
qed


text \<open>
  With version vectors of one length, a second pruning with the same count deletes
  nothing: the sorted versions of the survivors end with the versions kept before.
\<close>

lemma cache_pruning_twice:
  assumes u: "uniform_versions d k"
  shows "delete_download_cache_files (delete_download_cache_files d N) N =
         delete_download_cache_files d N"
proof (cases "0 \<le> N \<and> N < int (length (file_names d))")
  case False
  then have "delete_download_cache_files d N = d"
    by (simp only: delete_download_cache_files_filter if_False)
  then show ?thesis by simp
next
  case True
  then have N: "0 \<le> N" "N < int (length (file_names d))" by simp_all
  let ?d1 = "delete_download_cache_files d N"
  let ?vs = "cached_versions d"
  let ?j = "length (file_names d) - nat N"
  let ?keep = "drop ?j (sort ?vs)"
  let ?K = "\<lambda>v. v \<in> set ?keep"
  note f1 = uniform_survivors [OF N u]
  show ?thesis
  proof (cases "N < int (length (file_names ?d1))")
    case False
    then have "\<not> (0 \<le> N \<and> N < int (length (file_names ?d1)))" by simp
    then show ?thesis by (simp only: delete_download_cache_files_filter [of ?d1] if_False)
  next
    case True
    with N have N1: "0 \<le> N" "N < int (length (file_names ?d1))" by simp_all
    have vs1: "cached_versions ?d1 = filter ?K ?vs"
      unfolding cached_versions_def f1 filter_map comp_def ..
    have u1: "uniform_versions ?d1 k"
      using u unfolding uniform_versions_def vs1 list_all_iff by simp
    have lk: "length ?keep = nat N" using N by (simp add: cached_versions_def)
    have "sort (cached_versions ?d1) = filter ?K (sort ?vs)"
      unfolding vs1 by (rule filter_sort [symmetric])
    also have "\<dots> = filter ?K (take ?j (sort ?vs) @ ?keep)"
      by (simp only: append_take_drop_id)
    also have "\<dots> = filter ?K (take ?j (sort ?vs)) @ filter ?K ?keep"
      by (rule filter_append)
    also have "filter ?K ?keep = ?keep" by (rule filter_True) simp
    finally have s1: "sort (cached_versions ?d1) = filter ?K (take ?j (sort ?vs)) @ ?keep" .
    have "length (file_names ?d1) = length (cached_versions ?d1)"
      by (simp add: cached_versions_def)
    also have "\<dots> = length (sort (cached_versions ?d1))" by simp
    also have "\<dots> = length (filter ?K (take ?j (sort ?vs))) + nat N"
      unfolding s1 by (simp only: length_append lk)
    finally have "length (file_names ?d1) - nat N = length (filter ?K (take ?j (sort ?vs)))"
      by simp
    then have keep1: "drop (length (file_names ?d1) - nat N) (sort (cached_versions ?d1)) = ?keep"
      unfolding s1 by simp
    have all_kept: "\<not> should_delete
        (py_sorted (cmp_lt compare_version) (cached_versions ?d1)) N n"
      if n: "n \<in> set (file_names ?d1)" for n
    proof -
      from n have "extract_version n \<in> set ?keep" unfolding f1 by simp
      then show ?thesis
        unfolding uniform_should_delete [OF N1 u1 n] keep1 .
    qed
    have "delete_download_cache_files ?d1 N =
        filter (\<lambda>(n, x). \<not> (isfile (map_of ?d1 n) \<and>
          should_delete (py_sorted (cmp_lt compare_version) (cached_versions ?d1)) N n)) ?d1"
      using N1 by (simp only: delete_download_cache_files_filter [of ?d1] simp_thms if_True)
    also have "\<dots> = ?d1"
    proof (rule filter_True, rule ballI)
      fix e assume e: "e \<in> set ?d1"
      obtain n x where nx: "e = (n, x)" by (cases e)
      have "\<not> (isfile (map_of ?d1 n) \<and>
          should_delete (py_sorted (cmp_lt compare_version) (cached_versions ?d1)) N n)"
      proof
        assume a: "isfile (map_of ?d1 n) \<and>
          should_delete (py_sorted (cmp_lt compare_version) (cached_versions ?d1)) N n"
        from e nx have "(n, x) \<in> set ?d1" by simp
        from file_names_member [OF this conjunct1 [OF a]] have "n \<in> set (file_names ?d1)" .
        from all_kept [OF this] a show False by simp
      qed
      then show "case e of (n, x) \<Rightarrow> \<not> (isfile (map_of ?d1 n) \<and>
          should_delete (py_sorted (cmp_lt compare_version) (cached_versions ?d1)) N n)"
        unfolding nx by simp
    qed
    finally show ?thesis .
  qed
qed


text \<open>The keys of the backups are computed for the files in the order of the listing.\<close>

lemma timestamp_keys_names: "timestamp_keys xs = Inr keyed \<Longrightarrow> map snd keyed = xs"
proof (induction xs arbitrary: keyed)
  case Nil
  then show ?case by auto
next
  case (Cons x xs)
  from Cons.prems obtain k ks where k: "py_int (hd (split_on CHR ''-'' x)) = Inr k"
    and ks: "timestamp_keys xs = Inr ks" and keyed: "keyed = (k, x) # ks"
    by (auto split: sum.splits)
  from Cons.IH [OF ks] keyed show ?case by simp
qed

lemma timestamp_keys_filter:
  "timestamp_keys xs = Inr keyed \<Longrightarrow> \<exists>keyed'. timestamp_keys (filter P xs) = Inr keyed'"
proof (induction xs arbitrary: keyed)
  case Nil
  then show ?case by simp
next
  case (Cons x xs)
  from Cons.prems obtain k ks where k: "py_int (hd (split_on CHR ''-'' x)) = Inr k"
    and ks: "timestamp_keys xs = Inr ks"
    by (auto split: sum.splits)
  from Cons.IH [OF ks] obtain keyed' where "timestamp_keys (filter P xs) = Inr keyed'" ..
  with k show ?case by simp
qed

text \<open>Removing files one after the other removes the entries of these names.\<close>

lemma foldl_delete_filter:
  "foldl (\<lambda>d' filename. AList.delete filename d') d dels =
     filter (\<lambda>(n, x). n \<notin> set dels) d"
proof (induction dels arbitrary: d)
  case Nil
  show ?case by simp
next
  case (Cons f dels)
  have "foldl (\<lambda>d' filename. AList.delete filename d') d (f # dels) =
      filter (\<lambda>(n, x). n \<notin> set dels) (filter (\<lambda>(n, x). n \<noteq> f) d)"
    using Cons.IH [of "AList.delete f d"] by (simp only: foldl_Cons delete_filter)
  also have "\<dots> = filter (\<lambda>(n, x). n \<notin> set (f # dels)) d"
    unfolding filter_filter by (rule filter_cong [OF refl]) auto
  finally show ?case .
qed

text \<open>
  The pruning of the backups in closed form: the files are ordered by descending key,
  files of one key in the order of the listing, and those after the first \<open>N\<close> are
  removed.
\<close>

lemma delete_local_server_backup_files_filter:
  assumes "0 \<le> N" and keyed: "timestamp_keys (file_names d) = Inr keyed"
  shows "delete_local_server_backup_files d N =
     Inr (if N < int (length (file_names d))
          then filter (\<lambda>(n, x). n \<notin> set (drop (nat N)
                 (map snd (sort_key (\<lambda>(k, x). - k) keyed)))) d
          else d)"
proof -
  from timestamp_keys_names [OF keyed] have lk: "length keyed = length (file_names d)"
    by (metis length_map)
  show ?thesis
    unfolding delete_local_server_backup_files_def Let_def keyed foldl_delete_filter
    using assms(1) by (simp add: lk)
qed


lemma sorted_backups_mset:
  assumes keyed: "timestamp_keys (file_names d) = Inr keyed"
  shows "mset (map snd (sort_key (\<lambda>(k, x). - k) keyed)) = mset (file_names d)"
proof -
  have "mset (map snd (sort_key (\<lambda>(k, x). - k) keyed)) =
      image_mset snd (mset (sort_key (\<lambda>(k, x). - k) keyed))" by simp
  also have "\<dots> = image_mset snd (mset keyed)" by (simp only: mset_sort)
  also have "\<dots> = mset (map snd keyed)" by simp
  finally show ?thesis unfolding timestamp_keys_names [OF keyed] .
qed

text \<open>The backups that survive, and how many they are.\<close>

lemma backup_survivors:
  assumes N: "0 \<le> N" "N < int (length (file_names d))"
    and keyed: "timestamp_keys (file_names d) = Inr keyed"
  shows "\<exists>d1. delete_local_server_backup_files d N = Inr d1 \<and>
           file_names d1 =
             filter (\<lambda>n. n \<notin> set (drop (nat N) (map snd (sort_key (\<lambda>(k, x). - k) keyed))))
               (file_names d)"
proof -
  let ?dels = "drop (nat N) (map snd (sort_key (\<lambda>(k, x). - k) keyed))"
  let ?d1 = "filter (\<lambda>(n, x). n \<notin> set ?dels) d"
  have r: "delete_local_server_backup_files d N = Inr ?d1"
    unfolding delete_local_server_backup_files_filter [OF N(1) keyed] using N(2) by simp
  have f: "file_names ?d1 = filter (\<lambda>n. n \<notin> set ?dels) (file_names d)"
    by (rule file_names_filter)
  from r f show ?thesis by blast
qed

lemma filter_not_dropped:
  "length (filter (\<lambda>n. n \<notin> set (drop j xs)) ys) \<le> j" if "mset xs = mset ys"
proof -
  let ?P = "\<lambda>n. n \<notin> set (drop j xs)"
  have "length (filter ?P ys) = size (filter_mset ?P (mset ys))"
    by (simp only: mset_filter [symmetric] size_mset)
  also have "\<dots> = size (filter_mset ?P (mset xs))" by (simp only: that)
  also have "\<dots> = length (filter ?P xs)" by (simp only: mset_filter [symmetric] size_mset)
  also have "filter ?P xs = filter ?P (take j xs @ drop j xs)"
    by (simp only: append_take_drop_id)
  also have "\<dots> = filter ?P (take j xs) @ filter ?P (drop j xs)" by (rule filter_append)
  also have "filter ?P (drop j xs) = []" by (simp add: filter_empty_conv)
  finally have "length (filter ?P ys) = length (filter ?P (take j xs))" by simp
  also have "\<dots> \<le> length (take j xs)" by (rule length_filter_le)
  also have "\<dots> \<le> j" by simp
  finally show ?thesis .
qed

lemma filter_not_dropped_distinct:
  assumes "mset xs = mset ys" "distinct ys"
  shows "filter (\<lambda>n. n \<notin> set (drop j xs)) ys = filter (\<lambda>n. n \<in> set (take j xs)) ys"
    and "length (filter (\<lambda>n. n \<notin> set (drop j xs)) ys) = min j (length ys)"
proof -
  from assms have dx: "distinct xs" by (metis mset_eq_imp_distinct_iff)
  then have "distinct (take j xs @ drop j xs)" by (simp only: append_take_drop_id)
  then have disj: "set (take j xs) \<inter> set (drop j xs) = {}" by (simp only: distinct_append)
  from assms(1) have sets: "set ys = set xs" by (metis mset_eq_setD)
  have "set xs = set (take j xs) \<union> set (drop j xs)"
    by (simp only: set_append [symmetric] append_take_drop_id)
  with sets have un: "set ys = set (take j xs) \<union> set (drop j xs)" by simp
  show eq: "filter (\<lambda>n. n \<notin> set (drop j xs)) ys = filter (\<lambda>n. n \<in> set (take j xs)) ys"
    by (rule filter_cong [OF refl]) (use un disj in blast)
  have "set (filter (\<lambda>n. n \<in> set (take j xs)) ys) = set (take j xs)" using un by auto
  moreover have "distinct (filter (\<lambda>n. n \<in> set (take j xs)) ys)" using assms(2) by simp
  moreover have "distinct (take j xs)" using dx by simp
  ultimately have "length (filter (\<lambda>n. n \<in> set (take j xs)) ys) = length (take j xs)"
    by (metis distinct_card)
  also have "\<dots> = min j (length ys)"
    using mset_eq_length [OF assms(1)] by simp
  finally show "length (filter (\<lambda>n. n \<notin> set (drop j xs)) ys) = min j (length ys)"
    unfolding eq .
qed


text \<open>Every backup that survives has a key at least as great as any that is removed.\<close>

lemma backup_survivors_latest:
  assumes keyed: "timestamp_keys (file_names d) = Inr keyed"
    and dist: "distinct (file_names d)"
    and n: "(k, n) \<in> set keyed" "n \<notin> set (drop j (map snd (sort_key (\<lambda>(k, x). - k) keyed)))"
    and m: "(k', m) \<in> set keyed" "m \<in> set (drop j (map snd (sort_key (\<lambda>(k, x). - k) keyed)))"
  shows "k' \<le> k"
proof -
  let ?g = "\<lambda>(k :: int, x :: string). - k"
  let ?sk = "sort_key ?g keyed"
  have "distinct (map snd ?sk)"
    using sorted_backups_mset [OF keyed] dist by (metis mset_eq_imp_distinct_iff)
  then have inj: "inj_on snd (set ?sk)" by (simp only: distinct_map)
  have sets: "set ?sk = set keyed" by simp
  from m(2) have "m \<in> snd ` set (drop j ?sk)" by (simp only: drop_map set_map)
  then obtain k2 where k2: "(k2, m) \<in> set (drop j ?sk)" by force
  then have a: "(k2, m) \<in> set ?sk" by (rule in_set_dropD)
  from m(1) sets have b: "(k', m) \<in> set ?sk" by simp
  have "snd (k2, m) = snd (k', m)" by simp
  from inj_onD [OF inj this a b] have "(k2, m) = (k', m)" .
  with k2 have md: "(k', m) \<in> set (drop j ?sk)" by simp
  from n(1) sets have "(k, n) \<in> set ?sk" by simp
  then have "(k, n) \<in> set (take j ?sk @ drop j ?sk)"
    by (simp only: append_take_drop_id)
  then have "(k, n) \<in> set (take j ?sk) \<union> set (drop j ?sk)"
    by (simp only: set_append)
  then have "(k, n) \<in> set (take j ?sk) \<or> (k, n) \<in> set (drop j ?sk)" by blast
  moreover have "(k, n) \<notin> set (drop j ?sk)"
  proof
    assume "(k, n) \<in> set (drop j ?sk)"
    then have "snd (k, n) \<in> snd ` set (drop j ?sk)" by (rule imageI)
    then have "n \<in> set (drop j (map snd ?sk))" by (simp only: drop_map set_map snd_conv)
    with n(2) show False by simp
  qed
  ultimately have nt: "(k, n) \<in> set (take j ?sk)" by simp
  have "sorted (map ?g ?sk)" by (rule sorted_sort_key)
  then have "sorted (map ?g (take j ?sk) @ map ?g (drop j ?sk))"
    by (simp only: map_append [symmetric] append_take_drop_id)
  then have "\<forall>a \<in> set (map ?g (take j ?sk)). \<forall>b \<in> set (map ?g (drop j ?sk)). a \<le> b"
    unfolding sorted_append by blast
  moreover from nt have "?g (k, n) \<in> set (map ?g (take j ?sk))" by (simp only: set_map) (rule imageI)
  moreover from md have "?g (k', m) \<in> set (map ?g (drop j ?sk))" by (simp only: set_map) (rule imageI)
  ultimately have "?g (k, n) \<le> ?g (k', m)" by blast
  then show ?thesis by simp
qed

text \<open>A second pruning of the backups with the same count finds nothing to remove.\<close>

lemma backup_pruning_twice:
  assumes r: "delete_local_server_backup_files d N = Inr d1"
  shows "delete_local_server_backup_files d1 N = Inr d1"
proof (cases "0 \<le> N")
  case False
  then show ?thesis by (simp add: delete_local_server_backup_files_def)
next
  case True
  from r True obtain keyed where keyed: "timestamp_keys (file_names d) = Inr keyed"
    by (auto simp: delete_local_server_backup_files_def split: sum.splits)
  note cf = delete_local_server_backup_files_filter [OF True keyed]
  show ?thesis
  proof (cases "N < int (length (file_names d))")
    case False
    with r cf have "d1 = d" by simp
    with r show ?thesis by simp
  next
    case lt: True
    let ?all = "map snd (sort_key (\<lambda>(k, x). - k) keyed)"
    from backup_survivors [OF True lt keyed] r
    have f1: "file_names d1 = filter (\<lambda>n. n \<notin> set (drop (nat N) ?all)) (file_names d)"
      by simp
    from timestamp_keys_filter [OF keyed, of "\<lambda>n. n \<notin> set (drop (nat N) ?all)"]
    obtain keyed1 where keyed1: "timestamp_keys (file_names d1) = Inr keyed1"
      unfolding f1 by blast
    have "length (file_names d1) \<le> nat N"
      unfolding f1 by (rule filter_not_dropped [OF sorted_backups_mset [OF keyed]])
    with True have "\<not> N < int (length (file_names d1))" by simp
    then show ?thesis
      unfolding delete_local_server_backup_files_filter [OF True keyed1] by simp
  qed
qed


section \<open>Retention counts\<close>

lemma listdir_distinct_files: "distinct (listdir d) \<Longrightarrow> distinct (file_names d)"
  by (simp add: file_names_def)

text \<open>
  C3, as amended. With a negative count neither pruning deletes anything, and neither
  does with a count that is not below the number of files. Otherwise:

  \<^item> \<open>delete_download_cache_files\<close> removes exactly the files whose version vector
    compares equal to none of the last \<open>N\<close> entries of the sorted version list; at least
    \<open>N\<close> files survive, and every file that shares its version with a kept entry
    survives too, so more than \<open>N\<close> can survive. When all version vectors have one length
    the survivors are the files whose version is among the \<open>N\<close> greatest, and every
    survivor's version is greater than that of every removed file.

  \<^item> \<open>delete_local_server_backup_files\<close>, when every file name starts with an integer
    and the names are distinct, leaves exactly \<open>N\<close> files: the first \<open>N\<close> in descending
    order of the key, files of one key in the order of the listing; every survivor's key
    is at least that of every removed file. Files that share the key of the last
    survivor are removed.
\<close>

theorem pruning_keeps_latest:
  "(N < 0 \<longrightarrow>
      delete_download_cache_files d N = d \<and> delete_local_server_backup_files d N = Inr d) \<and>
   (0 \<le> N \<and> int (length (file_names d)) \<le> N \<longrightarrow>
      delete_download_cache_files d N = d \<and>
      (timestamp_keys (file_names d) = Inr keyed \<longrightarrow>
         delete_local_server_backup_files d N = Inr d)) \<and>
   (0 \<le> N \<and> N < int (length (file_names d)) \<longrightarrow>
      delete_download_cache_files d N =
        filter (\<lambda>(n, x). \<not> (isfile (map_of d n) \<and>
          should_delete (py_sorted (cmp_lt compare_version) (cached_versions d)) N n)) d \<and>
      nat N \<le> length (file_names (delete_download_cache_files d N))) \<and>
   (0 \<le> N \<and> N < int (length (file_names d)) \<and> uniform_versions d k \<longrightarrow>
      file_names (delete_download_cache_files d N) =
        filter (\<lambda>n. extract_version n \<in>
                  set (drop (length (file_names d) - nat N) (sort (cached_versions d))))
          (file_names d) \<and>
      (\<forall>n \<in> set (file_names (delete_download_cache_files d N)).
         \<forall>m \<in> set (file_names d).
           m \<notin> set (file_names (delete_download_cache_files d N)) \<longrightarrow>
           extract_version m < extract_version n)) \<and>
   (0 \<le> N \<and> N < int (length (file_names d)) \<and>
    timestamp_keys (file_names d) = Inr keyed \<and> distinct (listdir d) \<longrightarrow>
      (\<exists>d1. delete_local_server_backup_files d N = Inr d1 \<and>
         d1 = filter (\<lambda>(n, x). n \<notin> set (drop (nat N)
                (map snd (sort_key (\<lambda>(k, x). - k) keyed)))) d \<and>
         file_names d1 =
           filter (\<lambda>n. n \<in> set (take (nat N) (map snd (sort_key (\<lambda>(k, x). - k) keyed))))
             (file_names d) \<and>
         length (file_names d1) = nat N \<and>
         (\<forall>(k, n) \<in> set keyed. \<forall>(k', m) \<in> set keyed.
            n \<in> set (file_names d1) \<and> m \<notin> set (file_names d1) \<longrightarrow> k' \<le> k)))"
proof (intro conjI impI)
  assume "N < 0"
  then show "delete_download_cache_files d N = d"
    by (simp add: delete_download_cache_files_def)
  from \<open>N < 0\<close> show "delete_local_server_backup_files d N = Inr d"
    by (simp add: delete_local_server_backup_files_def)
next
  assume a: "0 \<le> N \<and> int (length (file_names d)) \<le> N"
  then show "delete_download_cache_files d N = d"
    by (simp add: delete_download_cache_files_filter)
  assume keyed: "timestamp_keys (file_names d) = Inr keyed"
  from a have "0 \<le> N" by simp
  from delete_local_server_backup_files_filter [OF this keyed] a
  show "delete_local_server_backup_files d N = Inr d" by simp
next
  assume a: "0 \<le> N \<and> N < int (length (file_names d))"
  then show "delete_download_cache_files d N =
        filter (\<lambda>(n, x). \<not> (isfile (map_of d n) \<and>
          should_delete (py_sorted (cmp_lt compare_version) (cached_versions d)) N n)) d"
    by (simp only: delete_download_cache_files_filter simp_thms if_True)
  from a have N: "0 \<le> N" "N < int (length (file_names d))" by simp_all
  show "nat N \<le> length (file_names (delete_download_cache_files d N))"
    by (rule cache_survivors_at_least [OF N])
next
  assume a: "0 \<le> N \<and> N < int (length (file_names d)) \<and> uniform_versions d k"
  then have N: "0 \<le> N" "N < int (length (file_names d))" and u: "uniform_versions d k"
    by simp_all
  show "file_names (delete_download_cache_files d N) =
        filter (\<lambda>n. extract_version n \<in>
                  set (drop (length (file_names d) - nat N) (sort (cached_versions d))))
          (file_names d)"
    by (rule uniform_survivors [OF N u])
  show "\<forall>n \<in> set (file_names (delete_download_cache_files d N)).
         \<forall>m \<in> set (file_names d).
           m \<notin> set (file_names (delete_download_cache_files d N)) \<longrightarrow>
           extract_version m < extract_version n"
    using uniform_survivors_greatest [OF N u] by blast
next
  assume a: "0 \<le> N \<and> N < int (length (file_names d)) \<and>
    timestamp_keys (file_names d) = Inr keyed \<and> distinct (listdir d)"
  then have N: "0 \<le> N" "N < int (length (file_names d))"
    and keyed: "timestamp_keys (file_names d) = Inr keyed"
    and dist: "distinct (file_names d)"
    by (simp_all add: listdir_distinct_files)
  let ?all = "map snd (sort_key (\<lambda>(k, x). - k) keyed)"
  let ?d1 = "filter (\<lambda>(n, x). n \<notin> set (drop (nat N) ?all)) d"
  have r: "delete_local_server_backup_files d N = Inr ?d1"
    unfolding delete_local_server_backup_files_filter [OF N(1) keyed] using N(2) by simp
  have f0: "file_names ?d1 = filter (\<lambda>n. n \<notin> set (drop (nat N) ?all)) (file_names d)"
    by (rule file_names_filter)
  note fd = filter_not_dropped_distinct [OF sorted_backups_mset [OF keyed] dist, of "nat N"]
  have f: "file_names ?d1 = filter (\<lambda>n. n \<in> set (take (nat N) ?all)) (file_names d)"
    unfolding f0 by (rule fd(1))
  have l: "length (file_names ?d1) = nat N"
    unfolding f0 fd(2) using N by simp
  have o: "\<forall>(k, n) \<in> set keyed. \<forall>(k', m) \<in> set keyed.
            n \<in> set (file_names ?d1) \<and> m \<notin> set (file_names ?d1) \<longrightarrow> k' \<le> k"
  proof (intro ballI, clarify)
    fix k n k' m
    assume kn: "(k, n) \<in> set keyed" and km: "(k', m) \<in> set keyed"
      and n: "n \<in> set (file_names ?d1)" and m: "m \<notin> set (file_names ?d1)"
    from n have n': "n \<notin> set (drop (nat N) ?all)" unfolding f0 by simp
    from km have "snd (k', m) \<in> snd ` set keyed" by (rule imageI)
    then have "m \<in> set (map snd keyed)" by simp
    then have "m \<in> set (file_names d)" unfolding timestamp_keys_names [OF keyed] .
    with m have m': "m \<in> set (drop (nat N) ?all)" unfolding f0 by simp
    show "k' \<le> k" by (rule backup_survivors_latest [OF keyed dist kn n' km m'])
  qed
  show "\<exists>d1. delete_local_server_backup_files d N = Inr d1 \<and>
         d1 = ?d1 \<and>
         file_names d1 = filter (\<lambda>n. n \<in> set (take (nat N) ?all)) (file_names d) \<and>
         length (file_names d1) = nat N \<and>
         (\<forall>(k, n) \<in> set keyed. \<forall>(k', m) \<in> set keyed.
            n \<in> set (file_names d1) \<and> m \<notin> set (file_names d1) \<longrightarrow> k' \<le> k)"
    by (intro exI [of _ ?d1] conjI) (rule r refl f l o)+
qed

end
